theory Spec2Isabelle
  imports Main
begin

section \<open>Data model of canvas.py\<close>

text \<open>
  The classification of a cell (class \<open>CanvasCellContentType\<close>), the exceptions the module
  can raise, and the value classes \<open>Point\<close>, \<open>Line\<close> and \<open>Rectangle\<close>. Coordinates are
  Python integers, hence \<open>int\<close>. A colour is a Python string.
\<close>

datatype CanvasCellContentType = Empty | Line

datatype error = OutOfCanvasBoundError | NotImplementedError | IndexError | TypeError | ValueError

type_synonym cell = "CanvasCellContentType \<times> string"

record Point =
  x :: int
  y :: int

record Line =
  from_point :: Point
  to_point :: Point

record Rectangle =
  top_left_point :: Point
  bottom_right_point :: Point

section \<open>Line and Rectangle\<close>

definition Line_init :: "Point \<Rightarrow> Point \<Rightarrow> Line" where
  "Line_init p q = \<lparr>from_point = p, to_point = q\<rparr>"

definition is_horizontal :: "Line \<Rightarrow> bool" where
  "is_horizontal l \<longleftrightarrow> x (from_point l) = x (to_point l)"

definition is_vertical :: "Line \<Rightarrow> bool" where
  "is_vertical l \<longleftrightarrow> y (from_point l) = y (to_point l)"

text \<open>
  \<open>Line.get_points\<close>: Python's \<open>range(a, b + 1)\<close> is the ascending list \<open>[a..b]\<close>, empty
  when \<open>b < a\<close>. The \<open>raise\<close> of the last branch is the value \<open>Inl NotImplementedError\<close>.
\<close>

definition get_points :: "Line \<Rightarrow> error + Point list" where
  "get_points l =
     (if is_horizontal l then
        Inr (map (\<lambda>j. \<lparr>x = x (from_point l), y = j\<rparr>) [y (from_point l) .. y (to_point l)])
      else if is_vertical l then
        Inr (map (\<lambda>i. \<lparr>x = i, y = y (from_point l)\<rparr>) [x (from_point l) .. x (to_point l)])
      else Inl NotImplementedError)"

definition Rectangle_init :: "Point \<Rightarrow> Point \<Rightarrow> Rectangle" where
  "Rectangle_init p q = \<lparr>top_left_point = p, bottom_right_point = q\<rparr>"

definition get_lines :: "Rectangle \<Rightarrow> Line list" where
  "get_lines r =
     (let top_right_point = \<lparr>x = x (bottom_right_point r), y = y (top_left_point r)\<rparr>;
          bottom_left_point = \<lparr>x = x (top_left_point r), y = y (bottom_right_point r)\<rparr>
      in [Line_init (top_left_point r) top_right_point,
          Line_init (top_left_point r) bottom_left_point,
          Line_init top_right_point (bottom_right_point r),
          Line_init bottom_left_point (bottom_right_point r)])"

section \<open>The canvas\<close>

text \<open>
  A canvas owns its dimensions, the cell array \<open>cells\<close> (a list of lists, read and written
  as \<open>cells[point.x][point.y]\<close>) and the list \<open>_previous_states\<close> of snapshots, most recent
  last. The snapshots are deep copies, so they are plain values here.
\<close>

record Canvas =
  width :: int
  height :: int
  cells :: "cell list list"
  previous_states :: "cell list list list"

text \<open>
  \<open>Canvas.__init__\<close> for integer arguments, on which \<open>int(...)\<close> is the identity. The
  outer comprehension runs over \<open>range(self.height)\<close> and the inner one over
  \<open>range(self.width)\<close>; \<open>range\<close> of a non-positive number is empty.
\<close>

definition Canvas_init :: "int \<Rightarrow> int \<Rightarrow> Canvas" where
  "Canvas_init w h =
     \<lparr>width = w, height = h,
      cells = replicate (nat h) (replicate (nat w) (Empty, '' '')),
      previous_states = []\<rparr>"

text \<open>
  \<open>Canvas.__init__\<close> for arbitrary arguments. The builtin \<open>int\<close> is not code of this module
  and is a parameter: it returns the integer or raises. The width is coerced first.
\<close>

definition Canvas_init_coerce :: "('a \<Rightarrow> error + int) \<Rightarrow> 'a \<Rightarrow> 'a \<Rightarrow> error + Canvas" where
  "Canvas_init_coerce py_int w h =
     (case py_int w of
        Inl e \<Rightarrow> Inl e
      | Inr wi \<Rightarrow>
          (case py_int h of
             Inl e \<Rightarrow> Inl e
           | Inr hi \<Rightarrow> Inr (Canvas_init wi hi)))"

text \<open>
  Python list indexing: an index \<open>i\<close> into a list of length \<open>n\<close> is valid when
  \<open>-n \<le> i < n\<close>, a negative one counting from the end; any other raises \<open>IndexError\<close>.
\<close>

definition py_index :: "nat \<Rightarrow> int \<Rightarrow> nat option" where
  "py_index n i =
     (if 0 \<le> i \<and> i < int n then Some (nat i)
      else if - int n \<le> i \<and> i < 0 then Some (nat (int n + i))
      else None)"

definition get_cell :: "cell list list \<Rightarrow> Point \<Rightarrow> error + cell" where
  "get_cell cs p =
     (case py_index (length cs) (x p) of
        None \<Rightarrow> Inl IndexError
      | Some i \<Rightarrow>
          (case py_index (length (cs ! i)) (y p) of
             None \<Rightarrow> Inl IndexError
           | Some j \<Rightarrow> Inr (cs ! i ! j)))"

definition set_cell :: "cell list list \<Rightarrow> Point \<Rightarrow> cell \<Rightarrow> error + cell list list" where
  "set_cell cs p v =
     (case py_index (length cs) (x p) of
        None \<Rightarrow> Inl IndexError
      | Some i \<Rightarrow>
          (case py_index (length (cs ! i)) (y p) of
             None \<Rightarrow> Inl IndexError
           | Some j \<Rightarrow> Inr (cs[i := (cs ! i)[j := v]])))"

text \<open>
  A method returns the exception it raised, if any, together with the canvas as the call
  left it: an exception does not roll back what was already written.
\<close>

definition draw_point :: "Canvas \<Rightarrow> Point \<Rightarrow> error option \<times> Canvas" where
  "draw_point c p =
     (case set_cell (cells c) p (Line, ''x'') of
        Inl e \<Rightarrow> (Some e, c)
      | Inr cs \<Rightarrow> (None, c\<lparr>cells := cs\<rparr>))"

definition point_is_out_of_bound :: "Canvas \<Rightarrow> Point \<Rightarrow> bool" where
  "point_is_out_of_bound c p =
     (let x_is_out_of_canvas_bound = (x p < 0 \<or> x p \<ge> width c);
          y_is_out_of_canvas_bound = (y p < 0 \<or> y p \<ge> height c)
      in x_is_out_of_canvas_bound \<or> y_is_out_of_canvas_bound)"

definition save_state :: "Canvas \<Rightarrow> Canvas" where
  "save_state c = c\<lparr>previous_states := previous_states c @ [cells c]\<rparr>"

text \<open>The loop of \<open>_draw_line\<close> over the points of a line.\<close>

fun draw_points :: "Canvas \<Rightarrow> Point list \<Rightarrow> error option \<times> Canvas" where
  "draw_points c [] = (None, c)"
| "draw_points c (p # ps) =
     (case draw_point c p of
        (Some e, c') \<Rightarrow> (Some e, c')
      | (None, c') \<Rightarrow> draw_points c' ps)"

text \<open>\<open>_draw_line\<close>; the leading underscore of a private method is written as a suffix.\<close>

definition draw_line_priv :: "Canvas \<Rightarrow> Line \<Rightarrow> error option \<times> Canvas" where
  "draw_line_priv c l =
     (case get_points l of
        Inl e \<Rightarrow> (Some e, c)
      | Inr ps \<Rightarrow> draw_points c ps)"

definition draw_line :: "Canvas \<Rightarrow> Line \<Rightarrow> error option \<times> Canvas" where
  "draw_line c l =
     (if point_is_out_of_bound c (from_point l) \<or> point_is_out_of_bound c (to_point l)
      then (Some OutOfCanvasBoundError, c)
      else draw_line_priv (save_state c) l)"

text \<open>The loop of \<open>draw_rectangle\<close> over the lines of a rectangle.\<close>

fun draw_lines :: "Canvas \<Rightarrow> Line list \<Rightarrow> error option \<times> Canvas" where
  "draw_lines c [] = (None, c)"
| "draw_lines c (l # ls) =
     (case draw_line_priv c l of
        (Some e, c') \<Rightarrow> (Some e, c')
      | (None, c') \<Rightarrow> draw_lines c' ls)"

definition draw_rectangle :: "Canvas \<Rightarrow> Rectangle \<Rightarrow> error option \<times> Canvas" where
  "draw_rectangle c r =
     (if point_is_out_of_bound c (top_left_point r) \<or>
         point_is_out_of_bound c (bottom_right_point r)
      then (Some OutOfCanvasBoundError, c)
      else draw_lines (save_state c) (get_lines r))"

subsection \<open>Bucket fill\<close>

text \<open>
  \<open>can_process_cell\<close> is the closure of \<open>_bucket_fill\<close>; it reads the local variables
  \<open>processed\<close> (a set) and \<open>to_process\<close> (a list) as they are when it is called.
\<close>

definition can_process_cell :: "Canvas \<Rightarrow> Point set \<Rightarrow> Point list \<Rightarrow> Point \<Rightarrow> bool" where
  "can_process_cell c processed to_process cell \<longleftrightarrow>
     cell \<notin> processed \<and> cell \<notin> set to_process \<and> \<not> point_is_out_of_bound c cell"

text \<open>\<open>if can_process_cell(n): to_process.insert(0, n)\<close>\<close>

definition enqueue :: "Canvas \<Rightarrow> Point set \<Rightarrow> Point list \<Rightarrow> Point \<Rightarrow> Point list" where
  "enqueue c processed to_process n =
     (if can_process_cell c processed to_process n then n # to_process else to_process)"

definition enqueue_neighbours :: "Canvas \<Rightarrow> Point set \<Rightarrow> Point list \<Rightarrow> Point \<Rightarrow> Point list" where
  "enqueue_neighbours c processed to_process current_point =
     (let left_neighbour = \<lparr>x = x current_point - 1, y = y current_point\<rparr>;
          to_process1 = enqueue c processed to_process left_neighbour;
          right_neighbour = \<lparr>x = x current_point + 1, y = y current_point\<rparr>;
          to_process2 = enqueue c processed to_process1 right_neighbour;
          top_neighbour = \<lparr>x = x current_point, y = y current_point - 1\<rparr>;
          to_process3 = enqueue c processed to_process2 top_neighbour;
          bottom_neighbour = \<lparr>x = x current_point, y = y current_point + 1\<rparr>
      in enqueue c processed to_process3 bottom_neighbour)"

text \<open>The in-bounds points that the fill has neither processed nor queued.\<close>

definition unseen :: "Canvas \<Rightarrow> Point set \<Rightarrow> Point list \<Rightarrow> Point set" where
  "unseen c processed to_process =
     {p. \<not> point_is_out_of_bound c p \<and> p \<notin> processed \<and> p \<notin> set to_process}"

text \<open>
  The \<open>while to_process != []\<close> loop of \<open>_bucket_fill\<close>. \<open>to_process.pop()\<close> takes the last
  element and \<open>to_process.insert(0, n)\<close> adds at the front. Reading or writing
  \<open>self.cells[current_point.x][current_point.y]\<close> out of range ends the loop with the
  exception, the cells painted so far staying painted.
\<close>

function bucket_fill_loop ::
  "Canvas \<Rightarrow> CanvasCellContentType \<Rightarrow> string \<Rightarrow> bool \<Rightarrow> Point set \<Rightarrow> Point list
     \<Rightarrow> error option \<times> Canvas" where
  "bucket_fill_loop c content_type_to_fill colour reset_content_type processed to_process =
     (if to_process = [] then (None, c)
      else
        let current_point = last to_process;
            to_process1 = butlast to_process;
            processed1 = insert current_point processed
        in case get_cell (cells c) current_point of
             Inl e \<Rightarrow> (Some e, c)
           | Inr (current_point_type, _) \<Rightarrow>
               if current_point_type = content_type_to_fill then
                 (case set_cell (cells c) current_point
                         (if reset_content_type then Empty else content_type_to_fill, colour) of
                    Inl e \<Rightarrow> (Some e, c)
                  | Inr cs \<Rightarrow>
                      bucket_fill_loop (c\<lparr>cells := cs\<rparr>) content_type_to_fill colour
                        reset_content_type processed1
                        (enqueue_neighbours c processed1 to_process1 current_point))
               else
                 bucket_fill_loop c content_type_to_fill colour reset_content_type
                   processed1 to_process1)"
  by pat_completeness auto

termination
proof -
  have fin: "finite (unseen c ps tp)" for c ps tp
  proof -
    have "unseen c ps tp \<subseteq> (\<lambda>(i, j). \<lparr>x = i, y = j\<rparr>) ` ({0..<width c} \<times> {0..<height c})"
    proof
      fix p assume "p \<in> unseen c ps tp"
      then have "(x p, y p) \<in> {0..<width c} \<times> {0..<height c}"
        by (auto simp: unseen_def point_is_out_of_bound_def)
      moreover have "p = (\<lambda>(i, j). \<lparr>x = i, y = j\<rparr>) (x p, y p)" by simp
      ultimately show "p \<in> (\<lambda>(i, j). \<lparr>x = i, y = j\<rparr>) ` ({0..<width c} \<times> {0..<height c})"
        by (rule image_eqI[rotated])
    qed
    then show ?thesis by (rule finite_subset) simp
  qed
  have unseen_cells: "unseen (c\<lparr>cells := cs\<rparr>) ps tp = unseen c ps tp" for c cs ps tp
    by (simp add: unseen_def point_is_out_of_bound_def)
  have pop: "card (unseen c (insert (last tp) ps) (butlast tp)) \<le> card (unseen c ps tp)
             \<and> length (butlast tp) < length tp"
    if "tp \<noteq> []" for c ps tp
  proof
    have "tp = butlast tp @ [last tp]" using that by simp
    then have "set tp = set (butlast tp @ [last tp])" by simp
    then have "set tp = insert (last tp) (set (butlast tp))" by simp
    then have "unseen c (insert (last tp) ps) (butlast tp) \<subseteq> unseen c ps tp"
      by (auto simp: unseen_def)
    then show "card (unseen c (insert (last tp) ps) (butlast tp)) \<le> card (unseen c ps tp)"
      by (rule card_mono[OF fin])
    show "length (butlast tp) < length tp" using that by simp
  qed
  have enq: "2 * card (unseen c ps (enqueue c ps tp n)) + length (enqueue c ps tp n)
               \<le> 2 * card (unseen c ps tp) + length tp" for c ps tp n
  proof (cases "can_process_cell c ps tp n")
    case True
    then have n: "n \<in> unseen c ps tp" by (simp add: can_process_cell_def unseen_def)
    have "unseen c ps (n # tp) = unseen c ps tp - {n}" by (auto simp: unseen_def)
    then have "card (unseen c ps (n # tp)) = card (unseen c ps tp) - 1"
      using n fin by simp
    moreover have "card (unseen c ps tp) > 0" using n fin[of c ps tp] by (auto simp: card_gt_0_iff)
    ultimately show ?thesis using True by (simp add: enqueue_def)
  next
    case False
    then show ?thesis by (simp add: enqueue_def)
  qed
  have enqs: "2 * card (unseen c ps (enqueue_neighbours c ps tp p))
                + length (enqueue_neighbours c ps tp p)
               \<le> 2 * card (unseen c ps tp) + length tp" for c ps tp p
    unfolding enqueue_neighbours_def Let_def
    by (rule order_trans[OF enq], rule order_trans[OF enq], rule order_trans[OF enq], rule enq)
  show ?thesis
    apply (relation "measure (\<lambda>(c, ct, colour, r, processed, to_process).
                   2 * card (unseen c processed to_process) + length to_process)")
    subgoal by simp
    subgoal for c ct colour r processed to_process
      using enqs[of c "insert (last to_process) processed" "butlast to_process" "last to_process"]
        pop[of to_process c processed]
      by (cases to_process rule: rev_cases) (simp_all add: unseen_cells)
    subgoal for c ct colour r processed to_process
      using pop[of to_process c processed]
      by (cases to_process rule: rev_cases) simp_all
    done
qed

declare bucket_fill_loop.simps [simp del]

text \<open>\<open>_bucket_fill\<close>, \<open>bucket_fill\<close>, \<open>delete\<close> and \<open>undo\<close>.\<close>

definition bucket_fill_priv ::
  "Canvas \<Rightarrow> Point \<Rightarrow> string \<Rightarrow> bool \<Rightarrow> error option \<times> Canvas" where
  "bucket_fill_priv c point colour reset_content_type =
     (case get_cell (cells c) point of
        Inl e \<Rightarrow> (Some e, c)
      | Inr (content_type_to_fill, _) \<Rightarrow>
          bucket_fill_loop c content_type_to_fill colour reset_content_type {} [point])"

definition bucket_fill :: "Canvas \<Rightarrow> Point \<Rightarrow> string \<Rightarrow> error option \<times> Canvas" where
  "bucket_fill c point colour =
     (if point_is_out_of_bound c point then (Some OutOfCanvasBoundError, c)
      else bucket_fill_priv (save_state c) point colour False)"

definition delete :: "Canvas \<Rightarrow> Point \<Rightarrow> error option \<times> Canvas" where
  "delete c point =
     (if point_is_out_of_bound c point then (Some OutOfCanvasBoundError, c)
      else bucket_fill_priv (save_state c) point '' '' True)"

definition undo :: "Canvas \<Rightarrow> error option \<times> Canvas" where
  "undo c =
     (if previous_states c \<noteq> [] then
        (None, c\<lparr>cells := last (previous_states c),
                  previous_states := butlast (previous_states c)\<rparr>)
      else (None, c))"

section \<open>The region of a fill\<close>

text \<open>
  The layout every method but the constructor assumes: \<open>cells[x]\<close> exists for
  \<open>0 \<le> x < width\<close> and \<open>cells[x][y]\<close> for \<open>0 \<le> y < height\<close>, that is, \<open>width\<close> columns of
  \<open>height\<close> cells.
\<close>

definition cells_wf :: "Canvas \<Rightarrow> bool" where
  "cells_wf c \<longleftrightarrow>
     length (cells c) = nat (width c) \<and> (\<forall>col \<in> set (cells c). length col = nat (height c))"

text \<open>
  The four neighbours of a point, in the order \<open>_bucket_fill\<close> visits them: left, right,
  top, bottom.
\<close>

definition neighbours :: "Point \<Rightarrow> Point list" where
  "neighbours q =
     [\<lparr>x = x q - 1, y = y q\<rparr>, \<lparr>x = x q + 1, y = y q\<rparr>,
      \<lparr>x = x q, y = y q - 1\<rparr>, \<lparr>x = x q, y = y q + 1\<rparr>]"

text \<open>The content classification stored at a point that has a cell.\<close>

definition has_type :: "Canvas \<Rightarrow> Point \<Rightarrow> CanvasCellContentType \<Rightarrow> bool" where
  "has_type c q ct = (case get_cell (cells c) q of Inl e \<Rightarrow> False | Inr (t, colour) \<Rightarrow> t = ct)"

text \<open>
  The region of a start point \<open>p\<close> for the classification \<open>ct\<close>, in the words of the
  specification: the points reachable from \<open>p\<close> by steps to a neighbour, through in-bound
  cells of classification \<open>ct\<close> only.
\<close>

inductive connected :: "Canvas \<Rightarrow> CanvasCellContentType \<Rightarrow> Point \<Rightarrow> Point \<Rightarrow> bool"
  for c :: Canvas and ct :: CanvasCellContentType and p :: Point where
  connected_start:
    "\<not> point_is_out_of_bound c p \<Longrightarrow> has_type c p ct \<Longrightarrow> connected c ct p p"
| connected_step:
    "connected c ct p q \<Longrightarrow> n \<in> set (neighbours q) \<Longrightarrow> \<not> point_is_out_of_bound c n \<Longrightarrow>
     has_type c n ct \<Longrightarrow> connected c ct p n"

text \<open>
  The invariant of the loop of \<open>_bucket_fill\<close>, started on the canvas \<open>c0\<close> at the point \<open>p\<close>
  whose classification is \<open>ct\<close>, and writing the cell \<open>nc\<close>: the queue has no duplicates
  and nothing processed; queued and processed points are in bound; exactly the processed
  cells of classification \<open>ct\<close> have been overwritten; queued and processed points of
  classification \<open>ct\<close> belong to the region; the in-bound neighbours of an overwritten cell
  are processed or queued; the start point is processed or queued.
\<close>

definition fill_inv ::
  "Canvas \<Rightarrow> CanvasCellContentType \<Rightarrow> Point \<Rightarrow> cell \<Rightarrow> Canvas \<Rightarrow> Point set \<Rightarrow> Point list
     \<Rightarrow> bool" where
  "fill_inv c0 ct p nc c processed to_process \<longleftrightarrow>
     cells_wf c \<and> width c = width c0 \<and> height c = height c0
     \<and> distinct to_process \<and> set to_process \<inter> processed = {}
     \<and> (\<forall>q \<in> set to_process \<union> processed. \<not> point_is_out_of_bound c0 q)
     \<and> (\<forall>q. \<not> point_is_out_of_bound c0 q \<longrightarrow>
            get_cell (cells c) q =
              (if q \<in> processed \<and> has_type c0 q ct then Inr nc else get_cell (cells c0) q))
     \<and> (\<forall>q \<in> set to_process \<union> processed. has_type c0 q ct \<longrightarrow> connected c0 ct p q)
     \<and> (\<forall>q \<in> processed. has_type c0 q ct \<longrightarrow>
            (\<forall>n \<in> set (neighbours q). \<not> point_is_out_of_bound c0 n \<longrightarrow>
               n \<in> processed \<or> n \<in> set to_process))
     \<and> (p \<in> processed \<or> p \<in> set to_process)"

text \<open>
  A canvas keeps the layout when its cell array and every snapshot have it. The canvases
  a program can hold are the new one and those left by a call, whatever the call returned.
\<close>

definition canvas_ok :: "Canvas \<Rightarrow> bool" where
  "canvas_ok c \<longleftrightarrow> cells_wf c \<and> (\<forall>s \<in> set (previous_states c). cells_wf (c\<lparr>cells := s\<rparr>))"

inductive reachable :: "int \<Rightarrow> int \<Rightarrow> Canvas \<Rightarrow> bool" for w :: int and h :: int where
  reachable_init: "reachable w h (Canvas_init w h)"
| reachable_draw_line: "reachable w h c \<Longrightarrow> draw_line c l = (r, c') \<Longrightarrow> reachable w h c'"
| reachable_draw_rectangle:
    "reachable w h c \<Longrightarrow> draw_rectangle c rect = (r, c') \<Longrightarrow> reachable w h c'"
| reachable_bucket_fill:
    "reachable w h c \<Longrightarrow> bucket_fill c p colour = (r, c') \<Longrightarrow> reachable w h c'"
| reachable_delete: "reachable w h c \<Longrightarrow> delete c p = (r, c') \<Longrightarrow> reachable w h c'"
| reachable_undo: "reachable w h c \<Longrightarrow> undo c = (r, c') \<Longrightarrow> reachable w h c'"

section \<open>What a call leaves alone\<close>

text \<open>
  Drawing and filling only ever assign to \<open>self.cells\<close>: the dimensions and the snapshot
  list of the canvas a call returns are those of the canvas it started from, whether the
  call returned normally or raised.
\<close>

lemma draw_point_frame: "draw_point c p = (r, c') \<Longrightarrow> c' = c\<lparr>cells := cells c'\<rparr>"
  by (auto simp: draw_point_def split: sum.splits)

lemma draw_points_frame: "draw_points c ps = (r, c') \<Longrightarrow> c' = c\<lparr>cells := cells c'\<rparr>"
proof (induction ps arbitrary: c)
  case Nil
  then show ?case by simp
next
  case (Cons p ps)
  obtain r1 c1 where d: "draw_point c p = (r1, c1)" by (cases "draw_point c p")
  from draw_point_frame[OF d] have c1: "c1 = c\<lparr>cells := cells c1\<rparr>" .
  show ?case
  proof (cases r1)
    case None
    with Cons.prems d have "draw_points c1 ps = (r, c')" by simp
    from Cons.IH[OF this] have "c' = c1\<lparr>cells := cells c'\<rparr>" .
    then have "c' = (c\<lparr>cells := cells c1\<rparr>)\<lparr>cells := cells c'\<rparr>" using c1 by simp
    then show ?thesis by simp
  next
    case (Some e)
    with Cons.prems d have "c' = c1" by simp
    then show ?thesis using c1 by simp
  qed
qed

lemma draw_line_priv_frame: "draw_line_priv c l = (r, c') \<Longrightarrow> c' = c\<lparr>cells := cells c'\<rparr>"
  by (auto simp: draw_line_priv_def split: sum.splits dest: draw_points_frame)

lemma draw_lines_frame: "draw_lines c ls = (r, c') \<Longrightarrow> c' = c\<lparr>cells := cells c'\<rparr>"
proof (induction ls arbitrary: c)
  case Nil
  then show ?case by simp
next
  case (Cons l ls)
  obtain r1 c1 where d: "draw_line_priv c l = (r1, c1)" by (cases "draw_line_priv c l")
  from draw_line_priv_frame[OF d] have c1: "c1 = c\<lparr>cells := cells c1\<rparr>" .
  show ?case
  proof (cases r1)
    case None
    with Cons.prems d have "draw_lines c1 ls = (r, c')" by simp
    from Cons.IH[OF this] have "c' = c1\<lparr>cells := cells c'\<rparr>" .
    then have "c' = (c\<lparr>cells := cells c1\<rparr>)\<lparr>cells := cells c'\<rparr>" using c1 by simp
    then show ?thesis by simp
  next
    case (Some e)
    with Cons.prems d have "c' = c1" by simp
    then show ?thesis using c1 by simp
  qed
qed

lemma bucket_fill_loop_frame:
  "bucket_fill_loop c ct colour reset processed to_process = (r, c') \<Longrightarrow> c' = c\<lparr>cells := cells c'\<rparr>"
proof (induction c ct colour reset processed to_process rule: bucket_fill_loop.induct)
  case (1 c ct colour reset processed to_process)
  note run = "1.prems"[unfolded bucket_fill_loop.simps[of c ct colour reset processed to_process]]
  show ?case
  proof (cases "to_process = []")
    case True
    with run show ?thesis by simp
  next
    case ne: False
    show ?thesis
    proof (cases "get_cell (cells c) (last to_process)")
      case (Inl e)
      with run ne show ?thesis by (simp add: Let_def)
    next
      case got: (Inr v)
      obtain t col where v: "v = (t, col)" by (cases v)
      show ?thesis
      proof (cases "t = ct")
        case False
        with run ne got v
        have "bucket_fill_loop c ct colour reset (insert (last to_process) processed)
                (butlast to_process) = (r, c')"
          by (simp add: Let_def)
        from "1.IH"(2)[OF ne refl refl refl got v[symmetric] False this] show ?thesis .
      next
        case True
        show ?thesis
        proof (cases "set_cell (cells c) (last to_process) (if reset then Empty else ct, colour)")
          case (Inl e)
          with run ne got v True show ?thesis by (simp add: Let_def)
        next
          case (Inr cs)
          with run ne got v True
          have "bucket_fill_loop (c\<lparr>cells := cs\<rparr>) ct colour reset
                  (insert (last to_process) processed)
                  (enqueue_neighbours c (insert (last to_process) processed)
                     (butlast to_process) (last to_process)) = (r, c')"
            by (simp add: Let_def)
          from "1.IH"(1)[OF ne refl refl refl got v[symmetric] True Inr this]
          have "c' = (c\<lparr>cells := cs\<rparr>)\<lparr>cells := cells c'\<rparr>" .
          then show ?thesis by simp
        qed
      qed
    qed
  qed
qed

lemma bucket_fill_priv_frame:
  "bucket_fill_priv c p colour reset = (r, c') \<Longrightarrow> c' = c\<lparr>cells := cells c'\<rparr>"
  by (auto simp: bucket_fill_priv_def split: sum.splits dest: bucket_fill_loop_frame)

section \<open>Lines and rectangles\<close>

text \<open>
  Claim C5. For a line with \<open>from.x = to.x\<close>, \<open>get_points\<close> returns the points
  \<open>(from.x, j)\<close> for \<open>j\<close> ascending from \<open>from.y\<close> to \<open>to.y\<close> inclusive: when
  \<open>from.y \<le> to.y\<close> there are \<open>|to.y - from.y| + 1\<close> of them, the \<open>k\<close>-th being
  \<open>(from.x, from.y + k)\<close>, and when \<open>from.y > to.y\<close> the list is empty. For a line with
  \<open>from.y = to.y\<close> the same holds with the roles of \<open>x\<close> and \<open>y\<close> exchanged.
\<close>

theorem get_points_axis_aligned:
  "(x (from_point l) = x (to_point l) \<longrightarrow>
      get_points l = Inr (map (\<lambda>j. \<lparr>x = x (from_point l), y = j\<rparr>) [y (from_point l) .. y (to_point l)])
      \<and> (y (from_point l) \<le> y (to_point l) \<longrightarrow>
            (\<exists>ps. get_points l = Inr ps \<and> length ps = nat \<bar>y (to_point l) - y (from_point l)\<bar> + 1
               \<and> (\<forall>k < length ps. ps ! k = \<lparr>x = x (from_point l), y = y (from_point l) + int k\<rparr>)))
      \<and> (y (from_point l) > y (to_point l) \<longrightarrow> get_points l = Inr []))
   \<and> (y (from_point l) = y (to_point l) \<longrightarrow>
      get_points l = Inr (map (\<lambda>i. \<lparr>x = i, y = y (from_point l)\<rparr>) [x (from_point l) .. x (to_point l)])
      \<and> (x (from_point l) \<le> x (to_point l) \<longrightarrow>
            (\<exists>ps. get_points l = Inr ps \<and> length ps = nat \<bar>x (to_point l) - x (from_point l)\<bar> + 1
               \<and> (\<forall>k < length ps. ps ! k = \<lparr>x = x (from_point l) + int k, y = y (from_point l)\<rparr>)))
      \<and> (x (from_point l) > x (to_point l) \<longrightarrow> get_points l = Inr []))"
proof (intro conjI impI)
  assume h: "x (from_point l) = x (to_point l)"
  then show "get_points l = Inr (map (\<lambda>j. \<lparr>x = x (from_point l), y = j\<rparr>) [y (from_point l) .. y (to_point l)])"
    by (simp add: get_points_def is_horizontal_def)
  then show "\<exists>ps. get_points l = Inr ps \<and> length ps = nat \<bar>y (to_point l) - y (from_point l)\<bar> + 1
               \<and> (\<forall>k < length ps. ps ! k = \<lparr>x = x (from_point l), y = y (from_point l) + int k\<rparr>)"
    if "y (from_point l) \<le> y (to_point l)"
    using that by simp
  show "get_points l = Inr []" if "y (from_point l) > y (to_point l)"
    using that h by (simp add: get_points_def is_horizontal_def)
next
  assume v: "y (from_point l) = y (to_point l)"
  show e: "get_points l = Inr (map (\<lambda>i. \<lparr>x = i, y = y (from_point l)\<rparr>) [x (from_point l) .. x (to_point l)])"
    using v by (simp add: get_points_def is_horizontal_def is_vertical_def)
  then show "\<exists>ps. get_points l = Inr ps \<and> length ps = nat \<bar>x (to_point l) - x (from_point l)\<bar> + 1
               \<and> (\<forall>k < length ps. ps ! k = \<lparr>x = x (from_point l) + int k, y = y (from_point l)\<rparr>)"
    if "x (from_point l) \<le> x (to_point l)"
    using that by simp
  show "get_points l = Inr []" if "x (from_point l) > x (to_point l)"
    using that e by simp 
qed

theorem get_points_axis_aligned_witness:
  "get_points (Line_init \<lparr>x = 1, y = 1\<rparr> \<lparr>x = 1, y = 5\<rparr>)
     = Inr [\<lparr>x = 1, y = 1\<rparr>, \<lparr>x = 1, y = 2\<rparr>, \<lparr>x = 1, y = 3\<rparr>, \<lparr>x = 1, y = 4\<rparr>, \<lparr>x = 1, y = 5\<rparr>]
   \<and> get_points (Line_init \<lparr>x = 1, y = 5\<rparr> \<lparr>x = 1, y = 1\<rparr>) = Inr []
   \<and> get_points (Line_init \<lparr>x = 1, y = 1\<rparr> \<lparr>x = 5, y = 1\<rparr>)
     = Inr [\<lparr>x = 1, y = 1\<rparr>, \<lparr>x = 2, y = 1\<rparr>, \<lparr>x = 3, y = 1\<rparr>, \<lparr>x = 4, y = 1\<rparr>, \<lparr>x = 5, y = 1\<rparr>]
   \<and> get_points (Line_init \<lparr>x = 5, y = 1\<rparr> \<lparr>x = 1, y = 1\<rparr>) = Inr []"
  using get_points_axis_aligned [of "Line_init \<lparr>x = 1, y = 1\<rparr> \<lparr>x = 1, y = 5\<rparr>"]
    get_points_axis_aligned [of "Line_init \<lparr>x = 1, y = 5\<rparr> \<lparr>x = 1, y = 1\<rparr>"]
    get_points_axis_aligned [of "Line_init \<lparr>x = 1, y = 1\<rparr> \<lparr>x = 5, y = 1\<rparr>"]
    get_points_axis_aligned [of "Line_init \<lparr>x = 5, y = 1\<rparr> \<lparr>x = 1, y = 1\<rparr>"]
  by (simp add: Line_init_def upto.simps)

lemma get_points_error_iff:
  "get_points l = Inl e \<longleftrightarrow>
     e = NotImplementedError \<and> x (from_point l) \<noteq> x (to_point l) \<and> y (from_point l) \<noteq> y (to_point l)"
  by (auto simp: get_points_def is_horizontal_def is_vertical_def)

text \<open>
  Claim C6. For two points that differ in both coordinates, building the line performs no
  check and yields the line with exactly these endpoints; the error of an unsupported
  line is what \<open>get_points\<close> returns on it.
\<close>

theorem diagonal_line_fails_lazily:
  "x p \<noteq> x q \<and> y p \<noteq> y q \<longrightarrow>
     Line_init p q = \<lparr>from_point = p, to_point = q\<rparr> \<and>
     get_points (Line_init p q) = Inl NotImplementedError"
  by (simp add: Line_init_def get_points_def is_horizontal_def is_vertical_def)

theorem diagonal_line_fails_lazily_witness:
  "get_points (Line_init \<lparr>x = 1, y = 1\<rparr> \<lparr>x = 2, y = 3\<rparr>) = Inl NotImplementedError"
  using diagonal_line_fails_lazily [of "\<lparr>x = 1, y = 1\<rparr>" "\<lparr>x = 2, y = 3\<rparr>"] by (simp add: Line_init_def)

text \<open>
  Claim C7. \<open>get_lines\<close> returns the four lines top-left to top-right, top-left to
  bottom-left, top-right to bottom-right and bottom-left to bottom-right, in this order,
  where top-right is \<open>(br.x, tl.y)\<close> and bottom-left is \<open>(tl.x, br.y)\<close>; for the corners
  \<open>(5, 1)\<close> and \<open>(1, 5)\<close> these are \<open>(5,1)\<rightarrow>(1,1)\<close>, \<open>(5,1)\<rightarrow>(5,5)\<close>, \<open>(1,1)\<rightarrow>(1,5)\<close> and
  \<open>(5,5)\<rightarrow>(1,5)\<close>.
\<close>

theorem get_lines_four_in_order:
  "get_lines (Rectangle_init p q) =
     [Line_init p \<lparr>x = x q, y = y p\<rparr>,
      Line_init p \<lparr>x = x p, y = y q\<rparr>,
      Line_init \<lparr>x = x q, y = y p\<rparr> q,
      Line_init \<lparr>x = x p, y = y q\<rparr> q]
   \<and> get_lines (Rectangle_init \<lparr>x = 5, y = 1\<rparr> \<lparr>x = 1, y = 5\<rparr>) =
     [Line_init \<lparr>x = 5, y = 1\<rparr> \<lparr>x = 1, y = 1\<rparr>,
      Line_init \<lparr>x = 5, y = 1\<rparr> \<lparr>x = 5, y = 5\<rparr>,
      Line_init \<lparr>x = 1, y = 1\<rparr> \<lparr>x = 1, y = 5\<rparr>,
      Line_init \<lparr>x = 5, y = 5\<rparr> \<lparr>x = 1, y = 5\<rparr>]"
  by (simp add: get_lines_def Rectangle_init_def Let_def)

section \<open>Rejected calls\<close>

text \<open>
  Claim C2. When a checked point (an endpoint of the line, a supplied corner of the
  rectangle, the start point of a fill or of a delete) is out of bound, the call raises
  \<open>OutOfCanvasBoundError\<close> and the canvas is the one it was given: neither the cells nor
  the snapshot list have changed.
\<close>

theorem out_of_bound_call_changes_nothing:
  "(point_is_out_of_bound c (from_point l) \<or> point_is_out_of_bound c (to_point l) \<longrightarrow>
      draw_line c l = (Some OutOfCanvasBoundError, c))
   \<and> (point_is_out_of_bound c (top_left_point r) \<or> point_is_out_of_bound c (bottom_right_point r) \<longrightarrow>
      draw_rectangle c r = (Some OutOfCanvasBoundError, c))
   \<and> (point_is_out_of_bound c p \<longrightarrow>
      bucket_fill c p colour = (Some OutOfCanvasBoundError, c) \<and>
      delete c p = (Some OutOfCanvasBoundError, c))"
  by (simp add: draw_line_def draw_rectangle_def bucket_fill_def delete_def)

theorem out_of_bound_call_changes_nothing_witness:
  "point_is_out_of_bound (Canvas_init 50 50) \<lparr>x = 3, y = 350\<rparr>
   \<and> draw_line (Canvas_init 50 50) (Line_init \<lparr>x = 3, y = 3\<rparr> \<lparr>x = 3, y = 350\<rparr>)
       = (Some OutOfCanvasBoundError, Canvas_init 50 50)
   \<and> draw_rectangle (Canvas_init 50 50) (Rectangle_init \<lparr>x = 3, y = 350\<rparr> \<lparr>x = 3, y = 3\<rparr>)
       = (Some OutOfCanvasBoundError, Canvas_init 50 50)
   \<and> bucket_fill (Canvas_init 50 50) \<lparr>x = 3, y = 350\<rparr> ''o''
       = (Some OutOfCanvasBoundError, Canvas_init 50 50)
   \<and> delete (Canvas_init 50 50) \<lparr>x = 3, y = 350\<rparr>
       = (Some OutOfCanvasBoundError, Canvas_init 50 50)"
proof -
  have h: "point_is_out_of_bound (Canvas_init 50 50) \<lparr>x = 3, y = 350\<rparr>"
    by (simp add: point_is_out_of_bound_def Canvas_init_def)
  show ?thesis
    using h out_of_bound_call_changes_nothing
      [of "Canvas_init 50 50" "Line_init \<lparr>x = 3, y = 3\<rparr> \<lparr>x = 3, y = 350\<rparr>"
          "Rectangle_init \<lparr>x = 3, y = 350\<rparr> \<lparr>x = 3, y = 3\<rparr>" "\<lparr>x = 3, y = 350\<rparr>" "''o''"]
    by (simp add: Line_init_def Rectangle_init_def)
qed


section \<open>Undo\<close>

text \<open>
  Once the bound check has passed, a call pushes the current cells and then only writes
  cells, so \<open>undo\<close> on the canvas it leaves gives back the canvas it started from.
\<close>

lemma undo_after_snapshot:
  "c' = (save_state c)\<lparr>cells := cs\<rparr> \<Longrightarrow> undo c' = (None, c)"
  by (simp add: undo_def save_state_def)

lemma draw_line_undo:
  "draw_line c l = (None, c') \<Longrightarrow> undo c' = (None, c)"
  unfolding draw_line_def
  by (auto split: if_splits dest!: draw_line_priv_frame intro: undo_after_snapshot)

lemma draw_rectangle_undo:
  "draw_rectangle c r = (None, c') \<Longrightarrow> undo c' = (None, c)"
  unfolding draw_rectangle_def
  by (auto split: if_splits dest!: draw_lines_frame intro: undo_after_snapshot)

lemma bucket_fill_undo:
  "bucket_fill c p colour = (None, c') \<Longrightarrow> undo c' = (None, c)"
  unfolding bucket_fill_def
  by (auto split: if_splits dest!: bucket_fill_priv_frame intro: undo_after_snapshot)

lemma delete_undo:
  "delete c p = (None, c') \<Longrightarrow> undo c' = (None, c)"
  unfolding delete_def
  by (auto split: if_splits dest!: bucket_fill_priv_frame intro: undo_after_snapshot)

text \<open>
  Claim C3. After a call of \<open>draw_line\<close>, \<open>draw_rectangle\<close>, \<open>bucket_fill\<close> or \<open>delete\<close> that
  returned normally, \<open>undo\<close> raises nothing and gives back the canvas the call started from,
  in particular its cells. On a canvas without snapshots, such as a new one, \<open>undo\<close>
  raises nothing and changes nothing.
\<close>

theorem undo_restores:
  "(draw_line c l = (None, c') \<longrightarrow> undo c' = (None, c))
   \<and> (draw_rectangle c r = (None, c') \<longrightarrow> undo c' = (None, c))
   \<and> (bucket_fill c p colour = (None, c') \<longrightarrow> undo c' = (None, c))
   \<and> (delete c p = (None, c') \<longrightarrow> undo c' = (None, c))
   \<and> (previous_states c = [] \<longrightarrow> undo c = (None, c))
   \<and> undo (Canvas_init w h) = (None, Canvas_init w h)"
proof (intro conjI impI)
  show "undo c' = (None, c)" if "draw_line c l = (None, c')" using that by (rule draw_line_undo)
  show "undo c' = (None, c)" if "draw_rectangle c r = (None, c')" using that by (rule draw_rectangle_undo)
  show "undo c' = (None, c)" if "bucket_fill c p colour = (None, c')" using that by (rule bucket_fill_undo)
  show "undo c' = (None, c)" if "delete c p = (None, c')" using that by (rule delete_undo)
  show "undo c = (None, c)" if "previous_states c = []" using that by (simp add: undo_def)
  show "undo (Canvas_init w h) = (None, Canvas_init w h)" by (simp add: undo_def Canvas_init_def)
qed

theorem undo_restores_witness:
  "undo (snd (draw_line (Canvas_init 4 4) (Line_init \<lparr>x = 1, y = 1\<rparr> \<lparr>x = 1, y = 3\<rparr>)))
     = (None, Canvas_init 4 4)
   \<and> undo (snd (draw_rectangle (Canvas_init 4 4) (Rectangle_init \<lparr>x = 0, y = 0\<rparr> \<lparr>x = 2, y = 3\<rparr>)))
     = (None, Canvas_init 4 4)
   \<and> undo (snd (bucket_fill (Canvas_init 4 4) \<lparr>x = 1, y = 1\<rparr> ''o'')) = (None, Canvas_init 4 4)
   \<and> undo (snd (delete (Canvas_init 4 4) \<lparr>x = 1, y = 1\<rparr>)) = (None, Canvas_init 4 4)
   \<and> undo (Canvas_init 4 4) = (None, Canvas_init 4 4)"
proof -
  let ?c = "Canvas_init 4 4"
  have ok: "fst (draw_line ?c (Line_init \<lparr>x = 1, y = 1\<rparr> \<lparr>x = 1, y = 3\<rparr>)) = None"
    "fst (draw_rectangle ?c (Rectangle_init \<lparr>x = 0, y = 0\<rparr> \<lparr>x = 2, y = 3\<rparr>)) = None"
    "fst (bucket_fill ?c \<lparr>x = 1, y = 1\<rparr> ''o'') = None"
    "fst (delete ?c \<lparr>x = 1, y = 1\<rparr>) = None"
    by code_simp+
  have e: "previous_states ?c = []" by (simp add: Canvas_init_def)
  have r: "fst v = None \<Longrightarrow> v = (None, snd v)" for v :: "error option \<times> Canvas"
    by (cases v) simp
  note u = undo_restores [where c = ?c]
  from u[THEN conjunct1, rule_format, OF r[OF ok(1)]]
    u[THEN conjunct2, THEN conjunct1, rule_format, OF r[OF ok(2)]]
    u[THEN conjunct2, THEN conjunct2, THEN conjunct1, rule_format, OF r[OF ok(3)]]
    u[THEN conjunct2, THEN conjunct2, THEN conjunct2, THEN conjunct1, rule_format, OF r[OF ok(4)]]
    u[THEN conjunct2, THEN conjunct2, THEN conjunct2, THEN conjunct2, THEN conjunct1, rule_format, OF e]
  show ?thesis by blast
qed

text \<open>
  Claim C10. \<open>draw_line\<close> on a line whose endpoints are both in bound and differ in both
  coordinates raises \<open>NotImplementedError\<close> after the snapshot was pushed: the cells are
  as before, the snapshot list is one longer, and a following \<open>undo\<close> pops that snapshot.
\<close>

theorem diagonal_line_leaves_snapshot:
  "\<not> point_is_out_of_bound c (from_point l) \<and> \<not> point_is_out_of_bound c (to_point l)
   \<and> x (from_point l) \<noteq> x (to_point l) \<and> y (from_point l) \<noteq> y (to_point l) \<longrightarrow>
     draw_line c l = (Some NotImplementedError, c\<lparr>previous_states := previous_states c @ [cells c]\<rparr>)
     \<and> cells (snd (draw_line c l)) = cells c
     \<and> length (previous_states (snd (draw_line c l))) = length (previous_states c) + 1
     \<and> undo (snd (draw_line c l)) = (None, c)"
  by (auto simp: draw_line_def draw_line_priv_def get_points_def is_horizontal_def is_vertical_def
        save_state_def undo_def)

theorem diagonal_line_leaves_snapshot_witness:
  "draw_line (Canvas_init 4 4) (Line_init \<lparr>x = 0, y = 0\<rparr> \<lparr>x = 2, y = 3\<rparr>)
     = (Some NotImplementedError,
        (Canvas_init 4 4)\<lparr>previous_states := [cells (Canvas_init 4 4)]\<rparr>)
   \<and> undo ((Canvas_init 4 4)\<lparr>previous_states := [cells (Canvas_init 4 4)]\<rparr>)
     = (None, Canvas_init 4 4)"
proof -
  let ?c = "Canvas_init 4 4" and ?l = "Line_init \<lparr>x = 0, y = 0\<rparr> \<lparr>x = 2, y = 3\<rparr>"
  have h: "\<not> point_is_out_of_bound ?c (from_point ?l) \<and> \<not> point_is_out_of_bound ?c (to_point ?l)
     \<and> x (from_point ?l) \<noteq> x (to_point ?l) \<and> y (from_point ?l) \<noteq> y (to_point ?l)"
    by (simp add: point_is_out_of_bound_def Canvas_init_def Line_init_def)
  have p: "previous_states ?c = []" by (simp add: Canvas_init_def)
  from diagonal_line_leaves_snapshot [rule_format, OF h]
  have d: "draw_line ?c ?l = (Some NotImplementedError, ?c\<lparr>previous_states := previous_states ?c @ [cells ?c]\<rparr>)"
    and u: "undo (snd (draw_line ?c ?l)) = (None, ?c)"
    by blast+
  from d p have d': "draw_line ?c ?l = (Some NotImplementedError, ?c\<lparr>previous_states := [cells ?c]\<rparr>)"
    by simp
  from u d' have "undo (?c\<lparr>previous_states := [cells ?c]\<rparr>) = (None, ?c)" by simp
  with d' show ?thesis by blast
qed

section \<open>The points a rectangle writes\<close>

lemma get_lines_points_in_bound:
  assumes tl: "\<not> point_is_out_of_bound c (top_left_point r)"
    and br: "\<not> point_is_out_of_bound c (bottom_right_point r)"
    and l: "l \<in> set (get_lines r)"
  shows "\<exists>ps. get_points l = Inr ps \<and> (\<forall>p \<in> set ps. \<not> point_is_out_of_bound c p)"
  using assms
  by (auto simp: get_lines_def Let_def Line_init_def get_points_def is_horizontal_def
        is_vertical_def point_is_out_of_bound_def)

text \<open>
  Claim C8, as the code has it. \<open>draw_rectangle\<close> checks the two supplied corners only, and
  that is enough: when both are in bound it draws the four lines of \<open>get_lines\<close>, none of
  them is rejected by \<open>get_points\<close>, and every point of every one of them is in bound.
\<close>

theorem rectangle_writes_stay_in_bound:
  "\<not> point_is_out_of_bound c (top_left_point r) \<and>
   \<not> point_is_out_of_bound c (bottom_right_point r) \<longrightarrow>
     draw_rectangle c r = draw_lines (save_state c) (get_lines r) \<and>
     (\<forall>l \<in> set (get_lines r).
        \<exists>ps. get_points l = Inr ps \<and> (\<forall>p \<in> set ps. \<not> point_is_out_of_bound c p))"
  by (auto simp: draw_rectangle_def intro: get_lines_points_in_bound)

theorem rectangle_writes_stay_in_bound_witness:
  "\<not> point_is_out_of_bound (Canvas_init 4 3) \<lparr>x = 0, y = 0\<rparr>
   \<and> \<not> point_is_out_of_bound (Canvas_init 4 3) \<lparr>x = 3, y = 2\<rparr>
   \<and> get_points (Line_init \<lparr>x = 0, y = 0\<rparr> \<lparr>x = 3, y = 0\<rparr>)
       = Inr [\<lparr>x = 0, y = 0\<rparr>, \<lparr>x = 1, y = 0\<rparr>, \<lparr>x = 2, y = 0\<rparr>, \<lparr>x = 3, y = 0\<rparr>]
   \<and> \<not> point_is_out_of_bound (Canvas_init 4 3) \<lparr>x = 3, y = 0\<rparr>"
proof -
  let ?c = "Canvas_init 4 3" and ?r = "Rectangle_init \<lparr>x = 0, y = 0\<rparr> \<lparr>x = 3, y = 2\<rparr>"
  let ?l = "Line_init \<lparr>x = 0, y = 0\<rparr> \<lparr>x = 3, y = 0\<rparr>"
  have h: "\<not> point_is_out_of_bound ?c \<lparr>x = 0, y = 0\<rparr>"
    "\<not> point_is_out_of_bound ?c \<lparr>x = 3, y = 2\<rparr>"
    by (simp_all add: point_is_out_of_bound_def Canvas_init_def)
  then have h': "\<not> point_is_out_of_bound ?c (top_left_point ?r) \<and>
                 \<not> point_is_out_of_bound ?c (bottom_right_point ?r)"
    by (simp add: Rectangle_init_def)
  have l: "?l \<in> set (get_lines ?r)"
    by (simp add: get_lines_def Rectangle_init_def Let_def)
  have g: "get_points ?l
             = Inr [\<lparr>x = 0, y = 0\<rparr>, \<lparr>x = 1, y = 0\<rparr>, \<lparr>x = 2, y = 0\<rparr>, \<lparr>x = 3, y = 0\<rparr>]"
    by (simp add: get_points_def Line_init_def is_horizontal_def is_vertical_def upto.simps)
  from rectangle_writes_stay_in_bound [rule_format, OF h'] l
  obtain ps where "get_points ?l = Inr ps" "\<forall>p \<in> set ps. \<not> point_is_out_of_bound ?c p"
    by blast
  with g have "\<not> point_is_out_of_bound ?c \<lparr>x = 3, y = 0\<rparr>" by simp
  with h g show ?thesis by blast
qed

text \<open>
  Claim C8 as stated asks for a rectangle with both supplied corners in bound and a
  point, on one of its four lines, out of bound. There is none.
\<close>

theorem no_rectangle_writes_out_of_bound:
  "\<not> (\<exists>c r. \<not> point_is_out_of_bound c (top_left_point r) \<and>
             \<not> point_is_out_of_bound c (bottom_right_point r) \<and>
             (\<exists>l \<in> set (get_lines r). \<exists>ps. get_points l = Inr ps \<and>
                (\<exists>p \<in> set ps. point_is_out_of_bound c p)))"
proof
  assume "\<exists>c r. \<not> point_is_out_of_bound c (top_left_point r) \<and>
             \<not> point_is_out_of_bound c (bottom_right_point r) \<and>
             (\<exists>l \<in> set (get_lines r). \<exists>ps. get_points l = Inr ps \<and>
                (\<exists>p \<in> set ps. point_is_out_of_bound c p))"
  then obtain c r l ps p where
    a: "\<not> point_is_out_of_bound c (top_left_point r)" "\<not> point_is_out_of_bound c (bottom_right_point r)"
       "l \<in> set (get_lines r)" and g: "get_points l = Inr ps" and p: "p \<in> set ps" "point_is_out_of_bound c p"
    by blast
  from get_lines_points_in_bound[OF a] g p show False by auto
qed

section \<open>Construction\<close>

text \<open>
  Claim C9, as the code has it. Construction coerces the width, then the height, and it
  fails exactly when one of these coercions fails, with that error. Whenever both
  succeed a canvas is built with these dimensions, whatever their sign, no snapshot, and
  \<open>height\<close> rows of \<open>width\<close> cells \<open>(Empty, ' ')\<close>, a non-positive number giving none.
\<close>

theorem construction_fails_iff_coercion_fails:
  "(Canvas_init_coerce py_int w h = Inl e \<longleftrightarrow>
      py_int w = Inl e \<or> (\<exists>wi. py_int w = Inr wi) \<and> py_int h = Inl e)
   \<and> (py_int w = Inr wi \<and> py_int h = Inr hi \<longrightarrow>
        Canvas_init_coerce py_int w h = Inr (Canvas_init wi hi)
        \<and> width (Canvas_init wi hi) = wi \<and> height (Canvas_init wi hi) = hi
        \<and> previous_states (Canvas_init wi hi) = []
        \<and> cells (Canvas_init wi hi) = replicate (nat hi) (replicate (nat wi) (Empty, '' '')))"
  by (auto simp: Canvas_init_coerce_def Canvas_init_def split: sum.splits)

theorem construction_fails_iff_coercion_fails_witness:
  "Canvas_init_coerce (\<lambda>v. case v of None \<Rightarrow> Inl ValueError | Some n \<Rightarrow> Inr n) None (Some 2) = Inl ValueError
   \<and> Canvas_init_coerce (\<lambda>v. case v of None \<Rightarrow> Inl ValueError | Some n \<Rightarrow> Inr n) (Some 2) (Some 0)
       = Inr (Canvas_init 2 0)
   \<and> cells (Canvas_init 2 0) = []"
  using construction_fails_iff_coercion_fails
      [of "\<lambda>v. case v of None \<Rightarrow> Inl ValueError | Some n \<Rightarrow> Inr n" None "Some 2" ValueError 2 0]
    construction_fails_iff_coercion_fails
      [of "\<lambda>v. case v of None \<Rightarrow> Inl ValueError | Some n \<Rightarrow> Inr n" "Some 2" "Some 0" ValueError 2 0]
  by simp

text \<open>
  Claim C9 as stated makes construction fail on non-positive dimensions. With integer
  arguments, on which \<open>int\<close> is the identity, \<open>Canvas(0, -3)\<close> and \<open>Canvas(-1, 2)\<close> are built.
\<close>

theorem non_positive_dimensions_accepted:
  "Canvas_init_coerce Inr 0 (- 3) = Inr \<lparr>width = 0, height = - 3, cells = [], previous_states = []\<rparr>
   \<and> Canvas_init_coerce Inr (- 1) 2 = Inr \<lparr>width = - 1, height = 2, cells = [[], []], previous_states = []\<rparr>"
  by (simp add: Canvas_init_coerce_def Canvas_init_def numeral_2_eq_2)

text \<open>
  The cell array of a new canvas has \<open>height\<close> rows of \<open>width\<close> cells, and it is read as
  \<open>cells[x][y]\<close>: the first index ranges over the height and the second over the width.
  On a square canvas every in-bound point has its cell.
\<close>

lemma Canvas_init_shape:
  "length (cells (Canvas_init w h)) = nat h \<and>
   (\<forall>row \<in> set (cells (Canvas_init w h)). length row = nat w)"
  by (simp add: Canvas_init_def)

lemma Canvas_init_get_cell:
  "get_cell (cells (Canvas_init w h)) p =
     (if - h \<le> x p \<and> x p < h \<and> - w \<le> y p \<and> y p < w then Inr (Empty, '' '') else Inl IndexError)"
  by (auto simp: get_cell_def py_index_def Canvas_init_def split: option.splits)

lemma Canvas_init_square:
  "0 \<le> i \<Longrightarrow> i < n \<Longrightarrow> 0 \<le> j \<Longrightarrow> j < n \<Longrightarrow>
     get_cell (cells (Canvas_init n n)) \<lparr>x = i, y = j\<rparr> = Inr (Empty, '' '')"
  by (simp add: Canvas_init_get_cell)

text \<open>
  Claim C1 at \<open>Canvas(3, 2)\<close>: the cell array has two rows of three cells, so the in-bound
  point \<open>(2, 0)\<close> has no cell, and drawing that point raises \<open>IndexError\<close>.
\<close>

theorem Canvas_init_3_2_rows_and_columns_swapped:
  "cells (Canvas_init 3 2) =
     [[(Empty, '' ''), (Empty, '' ''), (Empty, '' '')],
      [(Empty, '' ''), (Empty, '' ''), (Empty, '' '')]]
   \<and> \<not> point_is_out_of_bound (Canvas_init 3 2) \<lparr>x = 2, y = 0\<rparr>
   \<and> get_cell (cells (Canvas_init 3 2)) \<lparr>x = 2, y = 0\<rparr> = Inl IndexError
   \<and> fst (draw_line (Canvas_init 3 2) (Line_init \<lparr>x = 2, y = 0\<rparr> \<lparr>x = 2, y = 0\<rparr>)) = Some IndexError"
  by code_simp


section \<open>Bucket fill\<close>

subsection \<open>Reading and writing cells of a well-formed array\<close>

lemma in_bound_iff:
  "\<not> point_is_out_of_bound c q \<longleftrightarrow> 0 \<le> x q \<and> x q < width c \<and> 0 \<le> y q \<and> y q < height c"
  by (auto simp: point_is_out_of_bound_def)

lemma wf_get_cell:
  assumes "cells_wf c" "\<not> point_is_out_of_bound c q"
  shows "get_cell (cells c) q = Inr (cells c ! nat (x q) ! nat (y q))"
proof -
  from assms have b: "0 \<le> x q" "x q < width c" "0 \<le> y q" "y q < height c"
    by (simp_all add: in_bound_iff)
  from assms(1) b have i: "py_index (length (cells c)) (x q) = Some (nat (x q))"
    by (simp add: cells_wf_def py_index_def)
  from assms(1) b have "cells c ! nat (x q) \<in> set (cells c)"
    by (simp add: cells_wf_def)
  with assms(1) have "length (cells c ! nat (x q)) = nat (height c)"
    by (simp add: cells_wf_def)
  with b have "py_index (length (cells c ! nat (x q))) (y q) = Some (nat (y q))"
    by (simp add: py_index_def)
  with i show ?thesis by (simp add: get_cell_def)
qed

lemma wf_set_cell:
  assumes wf: "cells_wf c" and q: "\<not> point_is_out_of_bound c q"
  shows "set_cell (cells c) q v
           = Inr ((cells c)[nat (x q) := (cells c ! nat (x q))[nat (y q) := v]])"
proof -
  from q have b: "0 \<le> x q" "x q < width c" "0 \<le> y q" "y q < height c"
    by (simp_all add: in_bound_iff)
  from wf b have i: "py_index (length (cells c)) (x q) = Some (nat (x q))"
    by (simp add: cells_wf_def py_index_def)
  from wf b have "cells c ! nat (x q) \<in> set (cells c)"
    by (simp add: cells_wf_def)
  with wf have "length (cells c ! nat (x q)) = nat (height c)"
    by (simp add: cells_wf_def)
  with b have "py_index (length (cells c ! nat (x q))) (y q) = Some (nat (y q))"
    by (simp add: py_index_def)
  with i show ?thesis by (simp add: set_cell_def)
qed

lemma wf_update:
  assumes wf: "cells_wf c"
  shows "cells_wf (c\<lparr>cells := (cells c)[i := (cells c ! i)[j := v]]\<rparr>)"
proof -
  have "length col = nat (height c)"
    if "col \<in> set ((cells c)[i := (cells c ! i)[j := v]])" for col
  proof (cases "i < length (cells c)")
    case True
    from that have "col \<in> insert ((cells c ! i)[j := v]) (set (cells c))"
      using set_update_subset_insert by fastforce
    moreover have "cells c ! i \<in> set (cells c)" using True by simp
    ultimately show ?thesis using wf by (auto simp: cells_wf_def)
  next
    case False
    then have "(cells c)[i := (cells c ! i)[j := v]] = cells c"
      by (intro list_update_beyond) simp
    with that wf show ?thesis by (simp add: cells_wf_def)
  qed
  with wf show ?thesis by (simp add: cells_wf_def)
qed

lemma Point_eq_iff: "(q :: Point) = q' \<longleftrightarrow> x q = x q' \<and> y q = y q'"
  by (cases q, cases q') simp

lemma wf_get_after_set:
  assumes wf: "cells_wf c" and q: "\<not> point_is_out_of_bound c q"
    and q': "\<not> point_is_out_of_bound c q'"
  shows "get_cell ((cells c)[nat (x q) := (cells c ! nat (x q))[nat (y q) := v]]) q'
           = (if q' = q then Inr v else get_cell (cells c) q')"
proof -
  let ?cs = "(cells c)[nat (x q) := (cells c ! nat (x q))[nat (y q) := v]]"
  let ?c = "c\<lparr>cells := ?cs\<rparr>"
  from q have b: "0 \<le> x q" "x q < width c" "0 \<le> y q" "y q < height c"
    by (simp_all add: in_bound_iff)
  from q' have b': "0 \<le> x q'" "x q' < width c" "0 \<le> y q'" "y q' < height c"
    by (simp_all add: in_bound_iff)
  have wf': "cells_wf ?c" using wf by (rule wf_update)
  have q'': "\<not> point_is_out_of_bound ?c q'" using q' by (simp add: point_is_out_of_bound_def)
  from wf_get_cell[OF wf' q''] have g: "get_cell ?cs q' = Inr (?cs ! nat (x q') ! nat (y q'))"
    by simp
  have lx: "nat (x q) < length (cells c)" "nat (x q') < length (cells c)"
    using wf b b' by (simp_all add: cells_wf_def)
  then have "cells c ! nat (x q) \<in> set (cells c)" by simp
  with wf have ly: "nat (y q) < length (cells c ! nat (x q))"
    using b by (simp add: cells_wf_def)
  show ?thesis
  proof (cases "q' = q")
    case True
    with g lx ly show ?thesis by simp
  next
    case False
    then consider "x q' \<noteq> x q" | "x q' = x q" "y q' \<noteq> y q"
      by (auto simp: Point_eq_iff)
    then have "?cs ! nat (x q') ! nat (y q') = cells c ! nat (x q') ! nat (y q')"
    proof cases
      case 1
      with b b' have "nat (x q') \<noteq> nat (x q)" by simp
      then show ?thesis by simp
    next
      case 2
      with b b' have "nat (y q') \<noteq> nat (y q)" by simp
      with 2 lx show ?thesis by simp
    qed
    with g False wf_get_cell[OF wf q'] show ?thesis by simp
  qed
qed

lemma cells_wf_Canvas_init: "cells_wf (Canvas_init w h) \<longleftrightarrow> nat w = nat h"
  by (auto simp: cells_wf_def Canvas_init_def)

subsection \<open>The queue\<close>

lemma set_enqueue:
  "set (enqueue c ps tp n) =
     (if n \<notin> ps \<and> n \<notin> set tp \<and> \<not> point_is_out_of_bound c n then insert n (set tp) else set tp)"
  by (simp add: enqueue_def can_process_cell_def)

lemma distinct_enqueue: "distinct tp \<Longrightarrow> distinct (enqueue c ps tp n)"
  by (simp add: enqueue_def can_process_cell_def)

lemma set_enqueue_neighbours:
  "set (enqueue_neighbours c ps tp q) =
     set tp \<union> {n \<in> set (neighbours q). n \<notin> ps \<and> \<not> point_is_out_of_bound c n}"
  unfolding enqueue_neighbours_def Let_def neighbours_def
  by (simp only: set_enqueue) auto

lemma distinct_enqueue_neighbours:
  "distinct tp \<Longrightarrow> distinct (enqueue_neighbours c ps tp q)"
  unfolding enqueue_neighbours_def Let_def
  by (intro distinct_enqueue)

subsection \<open>The loop keeps its invariant\<close>

lemma oob_same_dims:
  "width c = width c0 \<Longrightarrow> height c = height c0 \<Longrightarrow>
     point_is_out_of_bound c q = point_is_out_of_bound c0 q"
  by (simp add: point_is_out_of_bound_def)

lemma fill_inv_skip:
  assumes inv: "fill_inv c0 ct p nc c ps (tp @ [cur])"
    and nt: "\<not> has_type c0 cur ct"
  shows "fill_inv c0 ct p nc c (insert cur ps) tp"
  using inv nt unfolding fill_inv_def
  by (intro conjI) auto

lemma fill_inv_paint:
  assumes inv: "fill_inv c0 ct p nc c ps (tp @ [cur])"
    and ty: "has_type c0 cur ct"
  shows "fill_inv c0 ct p nc
           (c\<lparr>cells := (cells c)[nat (x cur) := (cells c ! nat (x cur))[nat (y cur) := nc]]\<rparr>)
           (insert cur ps) (enqueue_neighbours c (insert cur ps) tp cur)"
proof -
  let ?cs = "(cells c)[nat (x cur) := (cells c ! nat (x cur))[nat (y cur) := nc]]"
  let ?tp = "enqueue_neighbours c (insert cur ps) tp cur"
  from inv have wf: "cells_wf c" and dims: "width c = width c0" "height c = height c0"
    and dist: "distinct (tp @ [cur])" and disj: "set (tp @ [cur]) \<inter> ps = {}"
    and inb: "\<forall>q \<in> set (tp @ [cur]) \<union> ps. \<not> point_is_out_of_bound c0 q"
    and cells: "\<forall>q. \<not> point_is_out_of_bound c0 q \<longrightarrow>
            get_cell (cells c) q =
              (if q \<in> ps \<and> has_type c0 q ct then Inr nc else get_cell (cells c0) q)"
    and sound: "\<forall>q \<in> set (tp @ [cur]) \<union> ps. has_type c0 q ct \<longrightarrow> connected c0 ct p q"
    and closed: "\<forall>q \<in> ps. has_type c0 q ct \<longrightarrow>
            (\<forall>n \<in> set (neighbours q). \<not> point_is_out_of_bound c0 n \<longrightarrow>
               n \<in> ps \<or> n \<in> set (tp @ [cur]))"
    and start: "p \<in> ps \<or> p \<in> set (tp @ [cur])"
    unfolding fill_inv_def by blast+
  note oob = oob_same_dims[OF dims]
  have st: "set ?tp = set tp \<union> {n \<in> set (neighbours cur). n \<notin> insert cur ps \<and> \<not> point_is_out_of_bound c0 n}"
    by (simp add: set_enqueue_neighbours oob)
  from inb have cur_in: "\<not> point_is_out_of_bound c0 cur" by simp
  from sound ty have cur_conn: "connected c0 ct p cur" by simp
  have 1: "cells_wf (c\<lparr>cells := ?cs\<rparr>)" using wf by (rule wf_update)
  have 2: "distinct ?tp" using dist by (intro distinct_enqueue_neighbours) simp
  have 3: "set ?tp \<inter> insert cur ps = {}" using dist disj by (auto simp: st)
  have 4: "\<forall>q \<in> set ?tp \<union> insert cur ps. \<not> point_is_out_of_bound c0 q"
    using inb by (auto simp: st)
  have 5: "\<forall>q. \<not> point_is_out_of_bound c0 q \<longrightarrow>
            get_cell ?cs q =
              (if q \<in> insert cur ps \<and> has_type c0 q ct then Inr nc else get_cell (cells c0) q)"
  proof (intro allI impI)
    fix q assume q: "\<not> point_is_out_of_bound c0 q"
    from wf_get_after_set[OF wf, of cur q nc] cur_in q
    have "get_cell ?cs q = (if q = cur then Inr nc else get_cell (cells c) q)"
      by (simp add: oob)
    with cells q ty show "get_cell ?cs q =
              (if q \<in> insert cur ps \<and> has_type c0 q ct then Inr nc else get_cell (cells c0) q)"
      by auto
  qed
  have 6: "\<forall>q \<in> set ?tp \<union> insert cur ps. has_type c0 q ct \<longrightarrow> connected c0 ct p q"
  proof (intro ballI impI)
    fix q assume q: "q \<in> set ?tp \<union> insert cur ps" and t: "has_type c0 q ct"
    then consider "q \<in> set (tp @ [cur]) \<union> ps"
      | "q \<in> set (neighbours cur)" "\<not> point_is_out_of_bound c0 q"
      by (auto simp: st)
    then show "connected c0 ct p q"
    proof cases
      case 1
      with sound t show ?thesis by blast
    next
      case 2
      from connected_step[OF cur_conn 2 t] show ?thesis .
    qed
  qed
  have 7: "\<forall>q \<in> insert cur ps. has_type c0 q ct \<longrightarrow>
            (\<forall>n \<in> set (neighbours q). \<not> point_is_out_of_bound c0 n \<longrightarrow>
               n \<in> insert cur ps \<or> n \<in> set ?tp)"
  proof (intro ballI impI)
    fix q n assume q: "q \<in> insert cur ps" and t: "has_type c0 q ct"
      and n: "n \<in> set (neighbours q)" "\<not> point_is_out_of_bound c0 n"
    show "n \<in> insert cur ps \<or> n \<in> set ?tp"
    proof (cases "q = cur")
      case True
      with n show ?thesis by (auto simp: st)
    next
      case False
      with q have "q \<in> ps" by simp
      with closed t n have "n \<in> ps \<or> n \<in> set (tp @ [cur])" by blast
      then show ?thesis by (auto simp: st)
    qed
  qed
  have 8: "p \<in> insert cur ps \<or> p \<in> set ?tp" using start by (auto simp: st)
  show ?thesis
    unfolding fill_inv_def using 1 2 3 4 5 6 7 8 dims by simp
qed


lemma fill_inv_start:
  assumes "cells_wf c0" "\<not> point_is_out_of_bound c0 p" "has_type c0 p ct"
  shows "fill_inv c0 ct p nc c0 {} [p]"
  using assms unfolding fill_inv_def by (auto intro: connected_start)

lemma fill_inv_painted:
  assumes inv: "fill_inv c0 ct p nc c ps []" and conn: "connected c0 ct p q"
  shows "q \<in> ps \<and> has_type c0 q ct"
  using conn
proof (induction rule: connected.induct)
  case connected_start
  with inv show ?case unfolding fill_inv_def by simp
next
  case (connected_step q n)
  with inv show ?case unfolding fill_inv_def by auto
qed

lemma fill_inv_result:
  assumes inv: "fill_inv c0 ct p nc c ps []" and q: "\<not> point_is_out_of_bound c0 q"
  shows "get_cell (cells c) q = (if connected c0 ct p q then Inr nc else get_cell (cells c0) q)"
proof -
  from inv q have "get_cell (cells c) q =
      (if q \<in> ps \<and> has_type c0 q ct then Inr nc else get_cell (cells c0) q)"
    unfolding fill_inv_def by blast
  moreover have "q \<in> ps \<and> has_type c0 q ct \<longleftrightarrow> connected c0 ct p q"
  proof
    assume "q \<in> ps \<and> has_type c0 q ct"
    with inv show "connected c0 ct p q" unfolding fill_inv_def by blast
  next
    assume "connected c0 ct p q"
    with inv show "q \<in> ps \<and> has_type c0 q ct" by (rule fill_inv_painted)
  qed
  ultimately show ?thesis by simp
qed

lemma bucket_fill_loop_runs:
  assumes wf0: "cells_wf c0"
  shows "fill_inv c0 ct p (if reset then Empty else ct, colour) c processed to_process \<Longrightarrow>
     \<exists>c' ps'. bucket_fill_loop c ct colour reset processed to_process = (None, c') \<and>
        fill_inv c0 ct p (if reset then Empty else ct, colour) c' ps' []"
proof (induction c ct colour reset processed to_process rule: bucket_fill_loop.induct)
  case (1 c ct colour reset processed to_process)
  let ?nc = "(if reset then Empty else ct, colour)"
  note step = bucket_fill_loop.simps[of c ct colour reset processed to_process]
  note inv = "1.prems"
  show ?case
  proof (cases "to_process = []")
    case True
    have "bucket_fill_loop c ct colour reset processed to_process = (None, c)"
      unfolding step using True by simp
    moreover from inv True have "fill_inv c0 ct p ?nc c processed []" by simp
    ultimately show ?thesis by blast
  next
    case ne: False
    define cur where "cur = last to_process"
    define tp where "tp = butlast to_process"
    from ne have split: "to_process = tp @ [cur]" by (simp add: cur_def tp_def)
    from inv have wf: "cells_wf c" and dims: "width c = width c0" "height c = height c0"
      and cur_in: "\<not> point_is_out_of_bound c0 cur" and cur_new: "cur \<notin> processed"
      and cells: "get_cell (cells c) cur =
              (if cur \<in> processed \<and> has_type c0 cur ct then Inr ?nc else get_cell (cells c0) cur)"
      unfolding fill_inv_def split by auto
    from cells cur_new have same: "get_cell (cells c) cur = get_cell (cells c0) cur" by simp
    obtain t col where got0: "get_cell (cells c0) cur = Inr (t, col)"
      using wf_get_cell[OF wf0 cur_in] by (cases "cells c0 ! nat (x cur) ! nat (y cur)") simp
    with same have got: "get_cell (cells c) (last to_process) = Inr (t, col)"
      by (simp add: cur_def)
    from got0 have ty: "has_type c0 cur ct \<longleftrightarrow> t = ct" by (simp add: has_type_def)
    have cur_in': "\<not> point_is_out_of_bound c cur"
      using cur_in by (simp add: oob_same_dims[OF dims])
    show ?thesis
    proof (cases "t = ct")
      case False
      from inv have "fill_inv c0 ct p ?nc c (insert cur processed) tp"
        unfolding split using False ty by (intro fill_inv_skip) simp_all
      then have "fill_inv c0 ct p ?nc c (insert (last to_process) processed) (butlast to_process)"
        by (simp add: cur_def tp_def)
      from "1.IH"(2)[OF ne refl refl refl got refl False this]
      obtain c' ps' where
        "bucket_fill_loop c ct colour reset (insert (last to_process) processed)
           (butlast to_process) = (None, c')"
        "fill_inv c0 ct p ?nc c' ps' []"
        by blast
      moreover have "bucket_fill_loop c ct colour reset processed to_process =
          bucket_fill_loop c ct colour reset (insert (last to_process) processed)
            (butlast to_process)"
        unfolding step using ne got False by (simp add: Let_def)
      ultimately show ?thesis by auto
    next
      case True
      let ?cs = "(cells c)[nat (x cur) := (cells c ! nat (x cur))[nat (y cur) := ?nc]]"
      have set: "set_cell (cells c) (last to_process) ?nc = Inr ?cs"
        using wf_set_cell[OF wf cur_in'] by (simp add: cur_def)
      from inv have "fill_inv c0 ct p ?nc (c\<lparr>cells := ?cs\<rparr>) (insert cur processed)
            (enqueue_neighbours c (insert cur processed) tp cur)"
        unfolding split using True ty by (intro fill_inv_paint) simp_all
      then have "fill_inv c0 ct p ?nc (c\<lparr>cells := ?cs\<rparr>) (insert (last to_process) processed)
            (enqueue_neighbours c (insert (last to_process) processed) (butlast to_process)
               (last to_process))"
        by (simp add: cur_def tp_def)
      from "1.IH"(1)[OF ne refl refl refl got refl True set this]
      obtain c' ps' where
        "bucket_fill_loop (c\<lparr>cells := ?cs\<rparr>) ct colour reset (insert (last to_process) processed)
           (enqueue_neighbours c (insert (last to_process) processed) (butlast to_process)
               (last to_process)) = (None, c')"
        "fill_inv c0 ct p ?nc c' ps' []"
        by blast
      moreover have "bucket_fill_loop c ct colour reset processed to_process =
          bucket_fill_loop (c\<lparr>cells := ?cs\<rparr>) ct colour reset
            (insert (last to_process) processed)
            (enqueue_neighbours c (insert (last to_process) processed) (butlast to_process)
               (last to_process))"
        unfolding step using ne got True set by (simp add: Let_def)
      ultimately show ?thesis by auto
    qed
  qed
qed

subsection \<open>The region\<close>

lemma neighbours_iff:
  "n \<in> set (neighbours q) \<longleftrightarrow> \<bar>x n - x q\<bar> + \<bar>y n - y q\<bar> = 1"
  by (auto simp: neighbours_def Point_eq_iff)

lemma connected_has_type: "connected c ct p q \<Longrightarrow> has_type c q ct \<and> \<not> point_is_out_of_bound c q"
  by (induction rule: connected.induct) simp_all

lemma connected_cong:
  assumes "connected c ct p q" "width c' = width c" "height c' = height c" "cells c' = cells c"
  shows "connected c' ct p q"
  using assms(1)
proof (induction rule: connected.induct)
  case connected_start
  with assms(2-4) have "\<not> point_is_out_of_bound c' p" "has_type c' p ct"
    by (simp_all add: point_is_out_of_bound_def has_type_def)
  then show ?case by (rule connected.connected_start)
next
  case (connected_step q n)
  with assms(2-4) have "\<not> point_is_out_of_bound c' n" "has_type c' n ct"
    by (simp_all add: point_is_out_of_bound_def has_type_def)
  with connected_step.IH connected_step.hyps(2) show ?case
    by (rule connected.connected_step)
qed

lemma connected_save_state: "connected (save_state c) ct p q \<longleftrightarrow> connected c ct p q"
proof
  assume "connected (save_state c) ct p q"
  then show "connected c ct p q" by (rule connected_cong) (simp_all add: save_state_def)
next
  assume "connected c ct p q"
  then show "connected (save_state c) ct p q"
    by (rule connected_cong) (simp_all add: save_state_def)
qed

text \<open>
  On a canvas with \<open>width\<close> columns of \<open>height\<close> cells the fill meets claim C4: started at
  an in-bound point of classification \<open>ct\<close> it returns normally, and afterwards the cell
  of every point of the region is \<open>(ct, colour)\<close> (or \<open>(Empty, colour)\<close> when the
  classification is reset) and the cell of every other in-bound point is what it was.
\<close>

lemma bucket_fill_priv_region:
  assumes wf: "cells_wf c" and p: "\<not> point_is_out_of_bound c p"
    and ty: "get_cell (cells c) p = Inr (ct, col)"
  shows "\<exists>c'. bucket_fill_priv c p colour reset = (None, c') \<and>
           c' = c\<lparr>cells := cells c'\<rparr> \<and> cells_wf c' \<and>
           (\<forall>q. \<not> point_is_out_of_bound c q \<longrightarrow>
              get_cell (cells c') q =
                (if connected c ct p q then Inr (if reset then Empty else ct, colour)
                 else get_cell (cells c) q))"
proof -
  let ?nc = "(if reset then Empty else ct, colour)"
  from ty have "has_type c p ct" by (simp add: has_type_def)
  with wf p have "fill_inv c ct p ?nc c {} [p]" by (rule fill_inv_start)
  from bucket_fill_loop_runs[OF wf this]
  obtain c' ps' where run: "bucket_fill_loop c ct colour reset {} [p] = (None, c')"
    and inv: "fill_inv c ct p ?nc c' ps' []"
    by blast
  from run ty have "bucket_fill_priv c p colour reset = (None, c')"
    by (simp add: bucket_fill_priv_def)
  moreover from run have "c' = c\<lparr>cells := cells c'\<rparr>" by (rule bucket_fill_loop_frame)
  moreover from inv have "cells_wf c'" unfolding fill_inv_def by blast
  moreover have "\<forall>q. \<not> point_is_out_of_bound c q \<longrightarrow>
              get_cell (cells c') q =
                (if connected c ct p q then Inr ?nc else get_cell (cells c) q)"
    using fill_inv_result[OF inv] by blast
  ultimately show ?thesis by blast
qed

lemma bucket_fill_region:
  assumes wf: "cells_wf c" and p: "\<not> point_is_out_of_bound c p"
    and ty: "get_cell (cells c) p = Inr (ct, col)"
  shows "\<exists>c'. bucket_fill c p colour = (None, c') \<and>
           width c' = width c \<and> height c' = height c \<and> cells_wf c' \<and>
           previous_states c' = previous_states c @ [cells c] \<and>
           (\<forall>q. \<not> point_is_out_of_bound c q \<longrightarrow>
              get_cell (cells c') q =
                (if connected c ct p q then Inr (ct, colour) else get_cell (cells c) q))"
proof -
  have wf': "cells_wf (save_state c)" using wf by (simp add: cells_wf_def save_state_def)
  have p': "\<not> point_is_out_of_bound (save_state c) p"
    using p by (simp add: point_is_out_of_bound_def save_state_def)
  have ty': "get_cell (cells (save_state c)) p = Inr (ct, col)"
    using ty by (simp add: save_state_def)
  from bucket_fill_priv_region[OF wf' p' ty', of colour False]
  obtain c' where run: "bucket_fill_priv (save_state c) p colour False = (None, c')"
    and fr: "c' = (save_state c)\<lparr>cells := cells c'\<rparr>" and wfc: "cells_wf c'"
    and res: "\<forall>q. \<not> point_is_out_of_bound (save_state c) q \<longrightarrow>
              get_cell (cells c') q =
                (if connected (save_state c) ct p q then Inr (ct, colour)
                 else get_cell (cells (save_state c)) q)"
    by auto
  have "bucket_fill c p colour = (None, c')" using run p by (simp add: bucket_fill_def)
  moreover have "width c' = width c" "height c' = height c"
    "previous_states c' = previous_states c @ [cells c]"
    by (subst fr, simp add: save_state_def)+
  moreover have "\<forall>q. \<not> point_is_out_of_bound c q \<longrightarrow>
              get_cell (cells c') q =
                (if connected c ct p q then Inr (ct, colour) else get_cell (cells c) q)"
  proof (intro allI impI)
    fix q assume "\<not> point_is_out_of_bound c q"
    then have "\<not> point_is_out_of_bound (save_state c) q"
      by (simp add: point_is_out_of_bound_def save_state_def)
    with res have "get_cell (cells c') q =
                (if connected (save_state c) ct p q then Inr (ct, colour)
                 else get_cell (cells (save_state c)) q)"
      by blast
    moreover have "cells (save_state c) = cells c" by (simp add: save_state_def)
    ultimately show "get_cell (cells c') q =
                (if connected c ct p q then Inr (ct, colour) else get_cell (cells c) q)"
      by (simp add: connected_save_state)
  qed
  ultimately show ?thesis using wfc by blast
qed

lemma delete_region:
  assumes wf: "cells_wf c" and p: "\<not> point_is_out_of_bound c p"
    and ty: "get_cell (cells c) p = Inr (ct, col)"
  shows "\<exists>c'. delete c p = (None, c') \<and>
           width c' = width c \<and> height c' = height c \<and> cells_wf c' \<and>
           previous_states c' = previous_states c @ [cells c] \<and>
           (\<forall>q. \<not> point_is_out_of_bound c q \<longrightarrow>
              get_cell (cells c') q =
                (if connected c ct p q then Inr (Empty, '' '') else get_cell (cells c) q))"
proof -
  have wf': "cells_wf (save_state c)" using wf by (simp add: cells_wf_def save_state_def)
  have p': "\<not> point_is_out_of_bound (save_state c) p"
    using p by (simp add: point_is_out_of_bound_def save_state_def)
  have ty': "get_cell (cells (save_state c)) p = Inr (ct, col)"
    using ty by (simp add: save_state_def)
  from bucket_fill_priv_region[OF wf' p' ty', of "'' ''" True]
  obtain c' where run: "bucket_fill_priv (save_state c) p '' '' True = (None, c')"
    and fr: "c' = (save_state c)\<lparr>cells := cells c'\<rparr>" and wfc: "cells_wf c'"
    and res: "\<forall>q. \<not> point_is_out_of_bound (save_state c) q \<longrightarrow>
              get_cell (cells c') q =
                (if connected (save_state c) ct p q then Inr (Empty, '' '')
                 else get_cell (cells (save_state c)) q)"
    by auto
  have "delete c p = (None, c')" using run p by (simp add: delete_def)
  moreover have "width c' = width c" "height c' = height c"
    "previous_states c' = previous_states c @ [cells c]"
    by (subst fr, simp add: save_state_def)+
  moreover have "\<forall>q. \<not> point_is_out_of_bound c q \<longrightarrow>
              get_cell (cells c') q =
                (if connected c ct p q then Inr (Empty, '' '') else get_cell (cells c) q)"
  proof (intro allI impI)
    fix q assume "\<not> point_is_out_of_bound c q"
    then have "\<not> point_is_out_of_bound (save_state c) q"
      by (simp add: point_is_out_of_bound_def save_state_def)
    with res have "get_cell (cells c') q =
                (if connected (save_state c) ct p q then Inr (Empty, '' '')
                 else get_cell (cells (save_state c)) q)"
      by blast
    moreover have "cells (save_state c) = cells c" by (simp add: save_state_def)
    ultimately show "get_cell (cells c') q =
                (if connected c ct p q then Inr (Empty, '' '') else get_cell (cells c) q)"
      by (simp add: connected_save_state)
  qed
  ultimately show ?thesis using wfc by blast
qed

subsection \<open>Square canvases keep the layout\<close>

lemma set_cell_wf:
  "cells_wf c \<Longrightarrow> set_cell (cells c) q v = Inr cs \<Longrightarrow> cells_wf (c\<lparr>cells := cs\<rparr>)"
  by (auto simp: set_cell_def split: option.splits intro: wf_update)

lemma draw_point_wf: "cells_wf c \<Longrightarrow> draw_point c q = (r, c') \<Longrightarrow> cells_wf c'"
  by (auto simp: draw_point_def split: sum.splits intro: set_cell_wf)

lemma draw_points_wf: "cells_wf c \<Longrightarrow> draw_points c ps = (r, c') \<Longrightarrow> cells_wf c'"
proof (induction ps arbitrary: c)
  case Nil
  then show ?case by simp
next
  case (Cons q ps)
  obtain r1 c1 where d: "draw_point c q = (r1, c1)" by (cases "draw_point c q")
  from draw_point_wf[OF Cons.prems(1) d] have wf1: "cells_wf c1" .
  show ?case
  proof (cases r1)
    case None
    with Cons.prems(2) d have "draw_points c1 ps = (r, c')" by simp
    with wf1 show ?thesis by (rule Cons.IH)
  next
    case (Some e)
    with Cons.prems(2) d wf1 show ?thesis by simp
  qed
qed

lemma draw_line_priv_wf: "cells_wf c \<Longrightarrow> draw_line_priv c l = (r, c') \<Longrightarrow> cells_wf c'"
  by (auto simp: draw_line_priv_def split: sum.splits intro: draw_points_wf)

lemma draw_lines_wf: "cells_wf c \<Longrightarrow> draw_lines c ls = (r, c') \<Longrightarrow> cells_wf c'"
proof (induction ls arbitrary: c)
  case Nil
  then show ?case by simp
next
  case (Cons l ls)
  obtain r1 c1 where d: "draw_line_priv c l = (r1, c1)" by (cases "draw_line_priv c l")
  from draw_line_priv_wf[OF Cons.prems(1) d] have wf1: "cells_wf c1" .
  show ?case
  proof (cases r1)
    case None
    with Cons.prems(2) d have "draw_lines c1 ls = (r, c')" by simp
    with wf1 show ?thesis by (rule Cons.IH)
  next
    case (Some e)
    with Cons.prems(2) d wf1 show ?thesis by simp
  qed
qed

lemma bucket_fill_loop_wf:
  "cells_wf c \<Longrightarrow> bucket_fill_loop c ct colour reset processed to_process = (r, c') \<Longrightarrow>
     cells_wf c'"
proof (induction c ct colour reset processed to_process rule: bucket_fill_loop.induct)
  case (1 c ct colour reset processed to_process)
  note wf = "1.prems"(1)
  note run = "1.prems"(2)[unfolded bucket_fill_loop.simps[of c ct colour reset processed to_process]]
  show ?case
  proof (cases "to_process = []")
    case True
    with run wf show ?thesis by simp
  next
    case ne: False
    show ?thesis
    proof (cases "get_cell (cells c) (last to_process)")
      case (Inl e)
      with run ne wf show ?thesis by (simp add: Let_def)
    next
      case got: (Inr v)
      obtain t col where v: "v = (t, col)" by (cases v)
      show ?thesis
      proof (cases "t = ct")
        case False
        with run ne got v
        have "bucket_fill_loop c ct colour reset (insert (last to_process) processed)
                (butlast to_process) = (r, c')"
          by (simp add: Let_def)
        from "1.IH"(2)[OF ne refl refl refl got v[symmetric] False wf this] show ?thesis .
      next
        case True
        show ?thesis
        proof (cases "set_cell (cells c) (last to_process) (if reset then Empty else ct, colour)")
          case (Inl e)
          with run ne got v True wf show ?thesis by (simp add: Let_def)
        next
          case (Inr cs)
          with run ne got v True
          have "bucket_fill_loop (c\<lparr>cells := cs\<rparr>) ct colour reset
                  (insert (last to_process) processed)
                  (enqueue_neighbours c (insert (last to_process) processed)
                     (butlast to_process) (last to_process)) = (r, c')"
            by (simp add: Let_def)
          from "1.IH"(1)[OF ne refl refl refl got v[symmetric] True Inr set_cell_wf[OF wf Inr] this]
          show ?thesis .
        qed
      qed
    qed
  qed
qed

lemma bucket_fill_priv_wf:
  "cells_wf c \<Longrightarrow> bucket_fill_priv c q colour reset = (r, c') \<Longrightarrow> cells_wf c'"
  by (auto simp: bucket_fill_priv_def split: sum.splits intro: bucket_fill_loop_wf)

lemma canvas_ok_after_snapshot:
  assumes ok: "canvas_ok c" and fr: "c' = (save_state c)\<lparr>cells := cells c'\<rparr>"
    and wf: "cells_wf c'"
  shows "canvas_ok c'"
proof -
  have dims: "width c' = width c" "height c' = height c"
    and prev: "previous_states c' = previous_states c @ [cells c]"
    by (subst fr, simp add: save_state_def)+
  have "cells_wf (c'\<lparr>cells := s\<rparr>)" if "s \<in> set (previous_states c')" for s
  proof -
    from that prev have "s \<in> set (previous_states c) \<or> s = cells c" by auto
    with ok have "cells_wf (c\<lparr>cells := s\<rparr>)" by (auto simp: canvas_ok_def)
    with dims show ?thesis by (simp add: cells_wf_def)
  qed
  with wf show ?thesis by (simp add: canvas_ok_def)
qed

lemma cells_wf_save_state: "cells_wf (save_state c) = cells_wf c"
  by (simp add: cells_wf_def save_state_def)

lemma canvas_ok_call:
  assumes ok: "canvas_ok c" and run: "f (save_state c) = (r, c')"
    and frame: "\<And>c r c'. f c = (r, c') \<Longrightarrow> c' = c\<lparr>cells := cells c'\<rparr>"
    and keeps: "\<And>c r c'. cells_wf c \<Longrightarrow> f c = (r, c') \<Longrightarrow> cells_wf c'"
  shows "canvas_ok c'"
proof -
  from ok have "cells_wf (save_state c)" by (simp add: cells_wf_save_state canvas_ok_def)
  then have "cells_wf c'" using run by (rule keeps)
  with ok frame[OF run] show ?thesis by (rule canvas_ok_after_snapshot)
qed

lemma draw_line_ok:
  assumes "canvas_ok c" "draw_line c l = (r, c')"
  shows "canvas_ok c'"
proof (cases "point_is_out_of_bound c (from_point l) \<or> point_is_out_of_bound c (to_point l)")
  case True
  with assms show ?thesis by (simp add: draw_line_def)
next
  case False
  with assms(2) have "draw_line_priv (save_state c) l = (r, c')" by (simp add: draw_line_def)
  with assms(1) show ?thesis
    by (rule canvas_ok_call[where f = "\<lambda>c. draw_line_priv c l"])
      (erule draw_line_priv_frame draw_line_priv_wf, assumption?)+
qed

lemma draw_rectangle_ok:
  assumes "canvas_ok c" "draw_rectangle c rect = (r, c')"
  shows "canvas_ok c'"
proof (cases "point_is_out_of_bound c (top_left_point rect) \<or>
              point_is_out_of_bound c (bottom_right_point rect)")
  case True
  with assms show ?thesis by (simp add: draw_rectangle_def)
next
  case False
  with assms(2) have "draw_lines (save_state c) (get_lines rect) = (r, c')"
    by (simp add: draw_rectangle_def)
  with assms(1) show ?thesis
    by (rule canvas_ok_call[where f = "\<lambda>c. draw_lines c (get_lines rect)"])
      (erule draw_lines_frame draw_lines_wf, assumption?)+
qed

lemma bucket_fill_ok:
  assumes "canvas_ok c" "bucket_fill c q colour = (r, c')"
  shows "canvas_ok c'"
proof (cases "point_is_out_of_bound c q")
  case True
  with assms show ?thesis by (simp add: bucket_fill_def)
next
  case False
  with assms(2) have "bucket_fill_priv (save_state c) q colour False = (r, c')"
    by (simp add: bucket_fill_def)
  with assms(1) show ?thesis
    by (rule canvas_ok_call[where f = "\<lambda>c. bucket_fill_priv c q colour False"])
      (erule bucket_fill_priv_frame bucket_fill_priv_wf, assumption?)+
qed

lemma delete_ok:
  assumes "canvas_ok c" "delete c q = (r, c')"
  shows "canvas_ok c'"
proof (cases "point_is_out_of_bound c q")
  case True
  with assms show ?thesis by (simp add: delete_def)
next
  case False
  with assms(2) have "bucket_fill_priv (save_state c) q '' '' True = (r, c')"
    by (simp add: delete_def)
  with assms(1) show ?thesis
    by (rule canvas_ok_call[where f = "\<lambda>c. bucket_fill_priv c q '' '' True"])
      (erule bucket_fill_priv_frame bucket_fill_priv_wf, assumption?)+
qed

lemma undo_ok:
  assumes ok: "canvas_ok c" and run: "undo c = (r, c')"
  shows "canvas_ok c'"
proof (cases "previous_states c = []")
  case True
  with assms show ?thesis by (simp add: undo_def)
next
  case False
  with run have c': "c' = c\<lparr>cells := last (previous_states c),
                             previous_states := butlast (previous_states c)\<rparr>"
    by (simp add: undo_def)
  from False have "last (previous_states c) \<in> set (previous_states c)" by simp
  with ok have 1: "cells_wf (c\<lparr>cells := last (previous_states c)\<rparr>)"
    by (simp add: canvas_ok_def)
  have 2: "cells_wf (c\<lparr>cells := s\<rparr>)" if "s \<in> set (butlast (previous_states c))" for s
    using that ok by (auto simp: canvas_ok_def dest: in_set_butlastD)
  from 1 2 show ?thesis unfolding c' by (simp add: canvas_ok_def cells_wf_def)
qed

lemma canvas_ok_Canvas_init: "canvas_ok (Canvas_init n n)"
  by (simp add: canvas_ok_def cells_wf_Canvas_init) (simp add: Canvas_init_def)

lemma reachable_square_ok: "reachable n n c \<Longrightarrow> canvas_ok c"
proof (induction rule: reachable.induct)
  case reachable_init
  show ?case by (rule canvas_ok_Canvas_init)
next
  case (reachable_draw_line c l r c')
  then show ?case by (blast intro: draw_line_ok)
next
  case (reachable_draw_rectangle c rect r c')
  then show ?case by (blast intro: draw_rectangle_ok)
next
  case (reachable_bucket_fill c p colour r c')
  then show ?case by (blast intro: bucket_fill_ok)
next
  case (reachable_delete c p r c')
  then show ?case by (blast intro: delete_ok)
next
  case (reachable_undo c r c')
  then show ?case by (blast intro: undo_ok)
qed

text \<open>
  Hence on every canvas a program can reach from a square one, a fill from an in-bound
  point paints exactly the region.
\<close>

lemma bucket_fill_region_square:
  assumes "reachable n n c" "\<not> point_is_out_of_bound c p"
    and "get_cell (cells c) p = Inr (ct, col)"
  shows "\<exists>c'. bucket_fill c p colour = (None, c') \<and>
           width c' = width c \<and> height c' = height c \<and> cells_wf c' \<and>
           previous_states c' = previous_states c @ [cells c] \<and>
           (\<forall>q. \<not> point_is_out_of_bound c q \<longrightarrow>
              get_cell (cells c') q =
                (if connected c ct p q then Inr (ct, colour) else get_cell (cells c) q))"
proof -
  from assms(1) have "cells_wf c" by (auto dest: reachable_square_ok simp: canvas_ok_def)
  then show ?thesis using assms(2,3) by (rule bucket_fill_region)
qed

text \<open>
  With that layout, a rectangle whose two supplied corners are in bound is drawn without
  any exception: every write goes to a cell that exists.
\<close>

lemma draw_points_in_bound:
  "cells_wf c \<Longrightarrow> \<forall>q \<in> set ps. \<not> point_is_out_of_bound c q \<Longrightarrow>
     \<exists>c'. draw_points c ps = (None, c') \<and> cells_wf c' \<and> width c' = width c \<and> height c' = height c"
proof (induction ps arbitrary: c)
  case Nil
  then show ?case by simp
next
  case (Cons q ps)
  let ?c1 = "c\<lparr>cells := (cells c)[nat (x q) := (cells c ! nat (x q))[nat (y q) := (Line, ''x'')]]\<rparr>"
  from Cons.prems have q: "\<not> point_is_out_of_bound c q" by simp
  from wf_set_cell[OF Cons.prems(1) q] have d: "draw_point c q = (None, ?c1)"
    by (simp add: draw_point_def)
  have wf1: "cells_wf ?c1" using Cons.prems(1) by (rule wf_update)
  have "\<forall>q \<in> set ps. \<not> point_is_out_of_bound ?c1 q"
    using Cons.prems(2) by (simp add: point_is_out_of_bound_def)
  from Cons.IH[OF wf1 this] d show ?case by auto
qed

lemma draw_rectangle_in_bound:
  assumes wf: "cells_wf c"
    and corners: "\<not> point_is_out_of_bound c (top_left_point r)"
      "\<not> point_is_out_of_bound c (bottom_right_point r)"
  shows "fst (draw_rectangle c r) = None"
proof -
  have run: "\<exists>c'. draw_lines c1 ls = (None, c') \<and> cells_wf c'"
    if "cells_wf c1" "width c1 = width c" "height c1 = height c" "set ls \<subseteq> set (get_lines r)"
    for c1 ls
    using that
  proof (induction ls arbitrary: c1)
    case Nil
    then show ?case by simp
  next
    case (Cons l ls)
    from Cons.prems(4) have "l \<in> set (get_lines r)" by simp
    from get_lines_points_in_bound[OF corners this]
    obtain ps where ps: "get_points l = Inr ps" "\<forall>q \<in> set ps. \<not> point_is_out_of_bound c q"
      by blast
    from ps(2) Cons.prems(2,3) have "\<forall>q \<in> set ps. \<not> point_is_out_of_bound c1 q"
      by (simp add: point_is_out_of_bound_def)
    from draw_points_in_bound[OF Cons.prems(1) this]
    obtain c2 where c2: "draw_points c1 ps = (None, c2)" "cells_wf c2"
      "width c2 = width c1" "height c2 = height c1"
      by blast
    with ps(1) have d: "draw_line_priv c1 l = (None, c2)" by (simp add: draw_line_priv_def)
    from Cons.IH[of c2] c2 Cons.prems(2,3,4) obtain c' where
      "draw_lines c2 ls = (None, c')" "cells_wf c'"
      by auto
    with d show ?case by simp
  qed
  have "cells_wf (save_state c)" using wf by (simp add: cells_wf_save_state)
  from run[OF this, of "get_lines r"] corners show ?thesis
    by (auto simp: draw_rectangle_def save_state_def)
qed

text \<open>
  An instance: the column \<open>x = 1\<close> of a 3 by 3 canvas is a line. A fill from \<open>(0, 0)\<close>
  paints the column \<open>x = 0\<close>, and neither the line nor the column behind it.
\<close>

lemma bucket_fill_region_instance:
  "\<exists>c'. bucket_fill
           \<lparr>width = 3, height = 3,
            cells = [[(Empty, '' ''), (Empty, '' ''), (Empty, '' '')],
                     [(Line, ''x''), (Line, ''x''), (Line, ''x'')],
                     [(Empty, '' ''), (Empty, '' ''), (Empty, '' '')]],
            previous_states = []\<rparr> \<lparr>x = 0, y = 0\<rparr> ''o'' = (None, c')
        \<and> get_cell (cells c') \<lparr>x = 0, y = 2\<rparr> = Inr (Empty, ''o'')
        \<and> get_cell (cells c') \<lparr>x = 1, y = 1\<rparr> = Inr (Line, ''x'')
        \<and> get_cell (cells c') \<lparr>x = 2, y = 0\<rparr> = Inr (Empty, '' '')"
proof -
  define c where "c = \<lparr>width = 3, height = 3,
            cells = [[(Empty, '' ''), (Empty, '' ''), (Empty, '' '')],
                     [(Line, ''x''), (Line, ''x''), (Line, ''x'')],
                     [(Empty, '' ''), (Empty, '' ''), (Empty, '' '')]],
            previous_states = []\<rparr>"
  let ?p = "\<lparr>x = 0, y = 0\<rparr>"
  have wf: "cells_wf c" by (simp add: c_def cells_wf_def)
  have inb: "\<not> point_is_out_of_bound c \<lparr>x = i, y = j\<rparr> \<longleftrightarrow> 0 \<le> i \<and> i < 3 \<and> 0 \<le> j \<and> j < 3"
    for i j by (auto simp: c_def point_is_out_of_bound_def)
  have get0: "get_cell (cells c) \<lparr>x = 0, y = j\<rparr> = Inr (Empty, '' '')"
    if "j \<in> {0, 1, 2}" for j
    using that by (auto simp: c_def get_cell_def py_index_def)
  have get1: "get_cell (cells c) \<lparr>x = 1, y = j\<rparr> = Inr (Line, ''x'')"
    if "j \<in> {0, 1, 2}" for j
    using that by (auto simp: c_def get_cell_def py_index_def)
  have get2: "get_cell (cells c) \<lparr>x = 2, y = 0\<rparr> = Inr (Empty, '' '')"
    by (simp add: c_def get_cell_def py_index_def)
  have c0: "connected c Empty ?p ?p"
    by (rule connected_start) (simp_all add: inb has_type_def get0)
  have c1: "connected c Empty ?p \<lparr>x = 0, y = 1\<rparr>"
    by (rule connected_step[OF c0]) (simp_all add: inb has_type_def get0 neighbours_def)
  have c2: "connected c Empty ?p \<lparr>x = 0, y = 2\<rparr>"
    by (rule connected_step[OF c1]) (simp_all add: inb has_type_def get0 neighbours_def)
  have n1: "\<not> connected c Empty ?p \<lparr>x = 1, y = 1\<rparr>"
    using connected_has_type[of c Empty ?p "\<lparr>x = 1, y = 1\<rparr>"]
    by (auto simp: has_type_def get1)
  have col0: "x q = 0" if "connected c Empty ?p q" for q
    using that
  proof (induction rule: connected.induct)
    case connected_start
    show ?case by simp
  next
    case (connected_step q n)
    obtain i j where n: "n = \<lparr>x = i, y = j\<rparr>" by (cases n) simp
    from connected_step.hyps(3) have j: "j \<in> {0, 1, 2}" and i: "0 \<le> i"
      unfolding n inb by auto
    from connected_step.hyps(2) connected_step.IH have "i \<in> {- 1, 0, 1}"
      by (auto simp: neighbours_def n)
    moreover have "i \<noteq> 1"
      using connected_step.hyps(4) get1[OF j] by (auto simp: n has_type_def)
    ultimately show ?case using i by (simp add: n)
  qed
  have n2: "\<not> connected c Empty ?p \<lparr>x = 2, y = 0\<rparr>"
    using col0[of "\<lparr>x = 2, y = 0\<rparr>"] by auto
  have g: "get_cell (cells c) ?p = Inr (Empty, '' '')" by (simp add: get0)
  have p: "\<not> point_is_out_of_bound c ?p" by (simp add: inb)
  from bucket_fill_region[OF wf p g, of "''o''"]
  obtain c' where run: "bucket_fill c ?p ''o'' = (None, c')"
    and res: "\<And>q. \<not> point_is_out_of_bound c q \<Longrightarrow>
              get_cell (cells c') q =
                (if connected c Empty ?p q then Inr (Empty, ''o'') else get_cell (cells c) q)"
    by blast
  have "get_cell (cells c') \<lparr>x = 0, y = 2\<rparr> = Inr (Empty, ''o'')"
    using res[of "\<lparr>x = 0, y = 2\<rparr>"] c2 by (simp add: inb)
  moreover have "get_cell (cells c') \<lparr>x = 1, y = 1\<rparr> = Inr (Line, ''x'')"
    using res[of "\<lparr>x = 1, y = 1\<rparr>"] n1 by (simp add: inb get1)
  moreover have "get_cell (cells c') \<lparr>x = 2, y = 0\<rparr> = Inr (Empty, '' '')"
    using res[of "\<lparr>x = 2, y = 0\<rparr>"] n2 by (simp add: inb get2)
  ultimately show ?thesis using run unfolding c_def by blast
qed

text \<open>
  Claim C4 at \<open>Canvas(3, 2)\<close>, whose array has two rows of three cells. The fill from
  \<open>(0, 0)\<close> paints three cells and then reaches the in-bound point \<open>(2, 0)\<close>, which has no
  cell: the call raises \<open>IndexError\<close> and leaves the region of six cells half painted.
\<close>

theorem bucket_fill_Canvas_3_2_raises:
  "bucket_fill (Canvas_init 3 2) \<lparr>x = 0, y = 0\<rparr> ''o'' =
     (Some IndexError,
      \<lparr>width = 3, height = 2,
       cells = [[(Empty, ''o''), (Empty, ''o''), (Empty, '' '')],
                [(Empty, ''o''), (Empty, '' ''), (Empty, '' '')]],
       previous_states = [[[(Empty, '' ''), (Empty, '' ''), (Empty, '' '')],
                           [(Empty, '' ''), (Empty, '' ''), (Empty, '' '')]]]\<rparr>)
   \<and> \<not> point_is_out_of_bound (Canvas_init 3 2) \<lparr>x = 0, y = 0\<rparr>"
  by code_simp

end
